theory Spec2Isabelle
  imports Main "HOL-Library.Sublist"
begin

section \<open>Python strings\<close>

text \<open>
  A Python \<open>str\<close> is a sequence of Unicode code points, and \<open>len\<close>, slicing and the
  string methods count code points. A string is therefore modelled as a list of code
  points (natural numbers); \<open>py\<close> turns a literal into such a list.
\<close>

type_synonym pystr = "nat list"

abbreviation cp :: "char \<Rightarrow> nat" where
  "cp \<equiv> of_char"

definition py :: "string \<Rightarrow> pystr" where
  "py s = map cp s"

text \<open>\<open>s.startswith(p)\<close>, \<open>s.endswith(p)\<close> and \<open>p in s\<close>.\<close>

definition startswith :: "pystr \<Rightarrow> pystr \<Rightarrow> bool" where
  "startswith s p = prefix p s"

definition endswith :: "pystr \<Rightarrow> pystr \<Rightarrow> bool" where
  "endswith s p = suffix p s"

definition contains :: "pystr \<Rightarrow> pystr \<Rightarrow> bool" where
  "contains s p = sublist p s"

text \<open>\<open>s.split(c)\<close> for a one-character separator: never an empty list.\<close>

function split_on :: "nat \<Rightarrow> pystr \<Rightarrow> pystr list" where
  "split_on c s =
     (case dropWhile (\<lambda>x. x \<noteq> c) s of
        [] \<Rightarrow> [s]
      | _ # rest \<Rightarrow> takeWhile (\<lambda>x. x \<noteq> c) s # split_on c rest)"
  by pat_completeness auto
termination
proof (relation "measure (\<lambda>(c, s). length s)")
  show "wf (measure (\<lambda>(c, s). length s))" by simp
next
  fix c :: nat and s x rest
  assume "dropWhile (\<lambda>x. x \<noteq> c) s = x # rest"
  then have "length rest < length (dropWhile (\<lambda>x. x \<noteq> c) s)" by simp
  also have "\<dots> \<le> length s" by (rule length_dropWhile_le)
  finally show "((c, rest), (c, s)) \<in> measure (\<lambda>(c, s). length s)" by simp
qed

text \<open>\<open>s.split(c, 1)\<close>: one or two pieces.\<close>

definition split_once :: "nat \<Rightarrow> pystr \<Rightarrow> pystr list" where
  "split_once c s =
     (case dropWhile (\<lambda>x. x \<noteq> c) s of
        [] \<Rightarrow> [s]
      | _ # rest \<Rightarrow> [takeWhile (\<lambda>x. x \<noteq> c) s, rest])"

text \<open>\<open>sep.join(xs)\<close>.\<close>

fun join :: "pystr \<Rightarrow> pystr list \<Rightarrow> pystr" where
  "join sep [] = []"
| "join sep [x] = x"
| "join sep (x # y # ys) = x @ sep @ join sep (y # ys)"

text \<open>
  The characters \<open>str.isspace\<close> accepts; \<open>strip()\<close> and \<open>split()\<close> without argument
  work on them.
\<close>

definition isspace :: "nat \<Rightarrow> bool" where
  "isspace c =
     ((9 \<le> c \<and> c \<le> 13) \<or> (28 \<le> c \<and> c \<le> 32) \<or> c = 133 \<or> c = 160 \<or> c = 5760
      \<or> (8192 \<le> c \<and> c \<le> 8202) \<or> c = 8232 \<or> c = 8233 \<or> c = 8239 \<or> c = 8287
      \<or> c = 12288)"

definition strip :: "pystr \<Rightarrow> pystr" where
  "strip s = rev (dropWhile isspace (rev (dropWhile isspace s)))"

text \<open>
  The maximal runs of characters that satisfy \<open>keep\<close>, left to right; \<open>cur\<close> holds the
  run being read, reversed. \<open>s.split()\<close> is the runs of non-space characters, and
  \<open>re.findall(r'\w+', s)\<close> the runs of word characters.
\<close>

fun runs :: "(nat \<Rightarrow> bool) \<Rightarrow> pystr \<Rightarrow> pystr \<Rightarrow> pystr list" where
  "runs keep cur [] = (if cur = [] then [] else [rev cur])"
| "runs keep cur (c # cs) =
     (if keep c then runs keep (c # cur) cs
      else (if cur = [] then [] else [rev cur]) @ runs keep [] cs)"

definition split_ws :: "pystr \<Rightarrow> pystr list" where
  "split_ws s = runs (\<lambda>c. \<not> isspace c) [] s"

text \<open>
  \<open>s.splitlines()\<close>: the line boundaries are LF, CR, CR LF, VT, FF, FS, GS, RS, NEL,
  LS and PS; a boundary at the very end opens no further line.
\<close>

definition is_linebreak :: "nat \<Rightarrow> bool" where
  "is_linebreak c =
     ((10 \<le> c \<and> c \<le> 13) \<or> (28 \<le> c \<and> c \<le> 30) \<or> c = 133 \<or> c = 8232 \<or> c = 8233)"

fun splitlines_from :: "pystr \<Rightarrow> pystr \<Rightarrow> pystr list" where
  "splitlines_from cur [] = (if cur = [] then [] else [rev cur])"
| "splitlines_from cur (c # cs) =
     (if c = 13 then
        rev cur # (case cs of
                     [] \<Rightarrow> []
                   | d # ds \<Rightarrow> if d = 10 then splitlines_from [] ds
                               else splitlines_from [] (d # ds))
      else if is_linebreak c then rev cur # splitlines_from [] cs
      else splitlines_from (c # cur) cs)"

definition splitlines :: "pystr \<Rightarrow> pystr list" where
  "splitlines s = splitlines_from [] s"

text \<open>\<open>str(n)\<close> for a non-negative integer.\<close>

fun str_of_nat :: "nat \<Rightarrow> pystr" where
  "str_of_nat n = (if n < 10 then [48 + n] else str_of_nat (n div 10) @ [48 + n mod 10])"

section \<open>The Python runtime's tables\<close>

text \<open>
  The character classes, the case mapping and the URL validation of the Python runtime
  are fixed on ASCII and written out below. Beyond ASCII they follow the Unicode
  database, and inside \<open>urllib\<close> the \<open>unicodedata\<close> and \<open>ipaddress\<close> modules; none of
  these is part of the repository, so they are a parameter of the model:
  \<^item> \<open>rt_isdigit\<close>: \<open>str.isdigit\<close> on a code point from 128 on;
  \<^item> \<open>rt_isdecimal\<close>: the regular expression class \<open>\d\<close> from 128 on;
  \<^item> \<open>rt_isword\<close>: the regular expression class \<open>\w\<close> from 128 on;
  \<^item> \<open>rt_lower\<close>: the lower-case form of a code point from 128 on, given the text
    before and after it (the final sigma depends on its context);
  \<^item> \<open>rt_nfkc_rejects\<close>: \<open>urllib\<close> refuses this non-ASCII network location after NFKC
    normalisation;
  \<^item> \<open>rt_bad_bracketed_host\<close>: \<open>urllib\<close> refuses this bracketed host.
\<close>

record runtime =
  rt_isdigit :: "nat \<Rightarrow> bool"
  rt_isdecimal :: "nat \<Rightarrow> bool"
  rt_isword :: "nat \<Rightarrow> bool"
  rt_lower :: "pystr \<Rightarrow> nat \<Rightarrow> pystr \<Rightarrow> pystr"
  rt_nfkc_rejects :: "pystr \<Rightarrow> bool"
  rt_bad_bracketed_host :: "pystr \<Rightarrow> bool"

text \<open>A runtime that knows ASCII only, for evaluating the model on ASCII inputs.\<close>

definition ascii_runtime :: runtime where
  "ascii_runtime =
     \<lparr>rt_isdigit = (\<lambda>c. False), rt_isdecimal = (\<lambda>c. False), rt_isword = (\<lambda>c. False),
      rt_lower = (\<lambda>pre c post. [c]), rt_nfkc_rejects = (\<lambda>n. False),
      rt_bad_bracketed_host = (\<lambda>h. False)\<rparr>"

definition ascii_isdigit :: "nat \<Rightarrow> bool" where
  "ascii_isdigit c = (48 \<le> c \<and> c \<le> 57)"

definition ascii_isalpha :: "nat \<Rightarrow> bool" where
  "ascii_isalpha c = ((65 \<le> c \<and> c \<le> 90) \<or> (97 \<le> c \<and> c \<le> 122))"

definition ascii_lower :: "nat \<Rightarrow> nat" where
  "ascii_lower c = (if 65 \<le> c \<and> c \<le> 90 then c + 32 else c)"

definition isdigit :: "runtime \<Rightarrow> nat \<Rightarrow> bool" where
  "isdigit rt c = (if c < 128 then ascii_isdigit c else rt_isdigit rt c)"

definition re_digit :: "runtime \<Rightarrow> nat \<Rightarrow> bool" where
  "re_digit rt c = (if c < 128 then ascii_isdigit c else rt_isdecimal rt c)"

definition re_word :: "runtime \<Rightarrow> nat \<Rightarrow> bool" where
  "re_word rt c =
     (if c < 128 then ascii_isalpha c \<or> ascii_isdigit c \<or> c = cp CHR ''_''
      else rt_isword rt c)"

text \<open>\<open>s.lower()\<close>; \<open>pre\<close> is the text already read, reversed.\<close>

fun lower_from :: "runtime \<Rightarrow> pystr \<Rightarrow> pystr \<Rightarrow> pystr" where
  "lower_from rt pre [] = []"
| "lower_from rt pre (c # post) =
     (if c < 128 then [ascii_lower c] else rt_lower rt (rev pre) c post)
       @ lower_from rt (c # pre) post"

definition lower :: "runtime \<Rightarrow> pystr \<Rightarrow> pystr" where
  "lower rt s = lower_from rt [] s"

text \<open>\<open>s.replace(' ', '')\<close>.\<close>

definition remove_spaces :: "pystr \<Rightarrow> pystr" where
  "remove_spaces s = filter (\<lambda>c. c \<noteq> cp CHR '' '') s"

section \<open>Exceptions\<close>

text \<open>
  The exception classes the browser code can meet. \<open>TimeoutException\<close>,
  \<open>NoSuchElementException\<close>, \<open>ElementClickInterceptedException\<close> and
  \<open>StaleElementReferenceException\<close> are subclasses of Selenium's
  \<open>WebDriverException\<close>; all but \<open>KeyboardInterrupt\<close> are subclasses of \<open>Exception\<close>.
  A fallible computation returns \<open>exn + 'a\<close>, with \<open>Inl\<close> the raised exception.
\<close>

datatype exn =
    TimeoutException
  | NoSuchElementException
  | ElementClickInterceptedException
  | StaleElementReferenceException
  | WebDriverException
  | ValueError
  | NameError
  | OtherException
  | KeyboardInterrupt


fun is_Exception :: "exn \<Rightarrow> bool" where
  "is_Exception KeyboardInterrupt = False"
| "is_Exception _ = True"

text \<open>Sequencing: the second computation runs when the first has not raised.\<close>

definition and_then :: "exn + 'a \<Rightarrow> ('a \<Rightarrow> exn + 'b) \<Rightarrow> exn + 'b" where
  "and_then r f = (case r of Inl e \<Rightarrow> Inl e | Inr v \<Rightarrow> f v)"


section \<open>URL handling\<close>

subsection \<open>\<open>Browser.clean_url\<close>\<close>

text \<open>
  The loop over \<open>query.split('&')\<close>: a parameter that starts with \<open>_skw=\<close>, \<open>q=\<close> or
  \<open>s=\<close> is appended to \<open>essential_params\<close>; otherwise one that starts with \<open>_\<close>,
  \<open>hash=\<close> or \<open>itmmeta=\<close> ends the loop (\<open>break\<close>); every other one is passed over.
\<close>

fun essential_params :: "pystr list \<Rightarrow> pystr list" where
  "essential_params [] = []"
| "essential_params (param # rest) =
     (if startswith param (py ''_skw='') \<or> startswith param (py ''q='')
         \<or> startswith param (py ''s='')
      then param # essential_params rest
      else if startswith param (py ''_'') \<or> startswith param (py ''hash='')
         \<or> startswith param (py ''itmmeta='')
      then []
      else essential_params rest)"

definition clean_url :: "pystr \<Rightarrow> pystr" where
  "clean_url url =
     (let clean = hd (split_on (cp CHR ''#'') url);
          parts = split_once (cp CHR ''?'') clean;
          base_url = hd parts
      in if length parts > 1
         then (let query = parts ! 1;
                   essential = essential_params (split_on (cp CHR ''&'') query)
               in if essential \<noteq> []
                  then base_url @ py ''?'' @ join (py ''&'') essential
                  else base_url)
         else base_url)"

subsection \<open>\<open>urllib.parse.urlparse\<close>\<close>

text \<open>
  \<open>is_link_valid\<close> reads the scheme, the network location and the path of
  \<open>urlparse(url)\<close>. The parser is the one of CPython 3.11: it drops leading C0 control
  characters and spaces, removes every tab, carriage return and line feed, splits off
  the scheme, then the network location after \<open>//\<close>, the fragment, the query and, for
  the schemes that have them, the parameters of the last path segment. It raises
  \<open>ValueError\<close> on unbalanced brackets in the network location and where the
  runtime's validation refuses the host.
\<close>

record parse_result =
  scheme :: pystr
  netloc :: pystr
  path :: pystr

definition is_c0_or_space :: "nat \<Rightarrow> bool" where
  "is_c0_or_space c = (c \<le> 32)"

definition is_unsafe_byte :: "nat \<Rightarrow> bool" where
  "is_unsafe_byte c = (c = 9 \<or> c = 13 \<or> c = 10)"

definition is_scheme_char :: "nat \<Rightarrow> bool" where
  "is_scheme_char c =
     (ascii_isalpha c \<or> ascii_isdigit c \<or> c = cp CHR ''+'' \<or> c = cp CHR ''-''
      \<or> c = cp CHR ''.'')"

definition uses_params :: "pystr list" where
  "uses_params =
     [py '''', py ''ftp'', py ''hdl'', py ''prospero'', py ''http'', py ''imap'',
      py ''https'', py ''shttp'', py ''rtsp'', py ''rtspu'', py ''sip'', py ''sips'',
      py ''mms'', py ''sftp'', py ''tel'']"

text \<open>
  The scheme: the text before the first colon, when it is not empty, starts with an
  ASCII letter and holds scheme characters only. Returns the scheme and the rest.
\<close>

definition split_scheme :: "pystr \<Rightarrow> pystr \<times> pystr" where
  "split_scheme url =
     (let pre = takeWhile (\<lambda>c. c \<noteq> cp CHR '':'') url
      in if cp CHR '':'' \<in> set url \<and> pre \<noteq> [] \<and> ascii_isalpha (hd pre)
            \<and> list_all is_scheme_char pre
         then (map ascii_lower pre, tl (dropWhile (\<lambda>c. c \<noteq> cp CHR '':'') url))
         else ([], url))"

definition is_netloc_delim :: "nat \<Rightarrow> bool" where
  "is_netloc_delim c = (c = cp CHR ''/'' \<or> c = cp CHR ''?'' \<or> c = cp CHR ''#'')"

text \<open>\<open>_splitnetloc(url, 2)\<close>: from position 2 up to the first of \<open>/\<close>, \<open>?\<close>, \<open>#\<close>.\<close>

definition splitnetloc :: "pystr \<Rightarrow> pystr \<times> pystr" where
  "splitnetloc url =
     (takeWhile (\<lambda>c. \<not> is_netloc_delim c) (drop 2 url),
      dropWhile (\<lambda>c. \<not> is_netloc_delim c) (drop 2 url))"

definition netloc_error :: "runtime \<Rightarrow> pystr \<Rightarrow> bool" where
  "netloc_error rt nl =
     (let has_open = cp CHR ''['' \<in> set nl; has_close = cp CHR '']'' \<in> set nl
      in (has_open \<and> \<not> has_close) \<or> (has_close \<and> \<not> has_open)
         \<or> (has_open \<and> has_close \<and>
             rt_bad_bracketed_host rt
               (takeWhile (\<lambda>c. c \<noteq> cp CHR '']'')
                  (tl (dropWhile (\<lambda>c. c \<noteq> cp CHR ''['') nl))))
         \<or> (list_ex (\<lambda>c. 128 \<le> c) nl \<and> rt_nfkc_rejects rt nl))"

text \<open>
  \<open>_splitparams\<close>: the parameters start at the first \<open>;\<close> of the last path segment.
\<close>

definition splitparams :: "pystr \<Rightarrow> pystr" where
  "splitparams url =
     (if cp CHR ''/'' \<in> set url
      then (let last_seg = rev (takeWhile (\<lambda>c. c \<noteq> cp CHR ''/'') (rev url));
                front = rev (dropWhile (\<lambda>c. c \<noteq> cp CHR ''/'') (rev url))
            in front @ takeWhile (\<lambda>c. c \<noteq> cp CHR '';'') last_seg)
      else takeWhile (\<lambda>c. c \<noteq> cp CHR '';'') url)"

definition urlparse :: "runtime \<Rightarrow> pystr \<Rightarrow> exn + parse_result" where
  "urlparse rt url0 =
     (let url1 = filter (\<lambda>c. \<not> is_unsafe_byte c) (dropWhile is_c0_or_space url0);
          (sch, url2) = split_scheme url1;
          (nl, url3) = (if startswith url2 (py ''//'') then splitnetloc url2 else ([], url2))
      in if netloc_error rt nl then Inl ValueError
         else (let url4 = hd (split_once (cp CHR ''#'') url3);
                   url5 = hd (split_once (cp CHR ''?'') url4);
                   p = (if sch \<in> set uses_params \<and> cp CHR '';'' \<in> set url5
                        then splitparams url5 else url5)
               in Inr \<lparr>scheme = sch, netloc = nl, path = p\<rparr>))"

subsection \<open>\<open>Browser.is_link_valid\<close>\<close>

text \<open>
  \<open>re.search(r'/\d+$', path)\<close>: the path ends with a slash and one or more decimal
  digits; \<open>$\<close> also matches before a line feed that ends the string.
\<close>

definition ends_with_slash_digits :: "runtime \<Rightarrow> pystr \<Rightarrow> bool" where
  "ends_with_slash_digits rt p =
     (let digits = takeWhile (re_digit rt) (rev p);
          front = dropWhile (re_digit rt) (rev p)
      in digits \<noteq> [] \<and> front \<noteq> [] \<and> hd front = cp CHR ''/'')"

definition search_numeric_tail :: "runtime \<Rightarrow> pystr \<Rightarrow> bool" where
  "search_numeric_tail rt p =
     (ends_with_slash_digits rt p
      \<or> (p \<noteq> [] \<and> last p = 10 \<and> ends_with_slash_digits rt (butlast p)))"

definition image_extensions :: "pystr list" where
  "image_extensions =
     [py ''.jpg'', py ''.jpeg'', py ''.png'', py ''.gif'', py ''.bmp'', py ''.tiff'',
      py ''.webp'']"

definition metadata_extensions :: "pystr list" where
  "metadata_extensions = [py ''.ico'', py ''.xml'', py ''.json'', py ''.rss'', py ''.atom'']"

definition has_blocked_extension :: "runtime \<Rightarrow> pystr \<Rightarrow> bool" where
  "has_blocked_extension rt url =
     list_ex (\<lambda>ext. endswith (lower rt url) ext) (image_extensions @ metadata_extensions)"

definition is_link_valid :: "runtime \<Rightarrow> pystr \<Rightarrow> exn + bool" where
  "is_link_valid rt url =
     (if length url > 64 then Inr False
      else and_then (urlparse rt url) (\<lambda>parsed_url.
        if scheme parsed_url = [] \<or> netloc parsed_url = [] then Inr False
        else if search_numeric_tail rt (path parsed_url) then Inr False
        else if has_blocked_extension rt url then Inr False
        else Inr True))"

subsection \<open>\<open>Browser.get_navigable\<close>\<close>

text \<open>
  An \<open>a\<close> element as the driver reports it: its \<open>href\<close> attribute (\<open>None\<close> when
  absent), its text and whether it is displayed. The argument of \<open>get_navigable\<close> is
  the outcome of \<open>driver.find_elements(By.TAG_NAME, "a")\<close>.
\<close>

record anchor =
  a_href :: "pystr option"
  a_text :: pystr
  a_displayed :: bool

record link =
  link_url :: pystr
  link_text :: pystr
  link_is_displayed :: bool

definition collect_links :: "anchor list \<Rightarrow> link list" where
  "collect_links elements =
     concat (map (\<lambda>element.
        case a_href element of
          None \<Rightarrow> []
        | Some href \<Rightarrow>
            if href \<noteq> [] \<and> (startswith href (py ''http'') \<or> startswith href (py ''https''))
            then [\<lparr>link_url = href, link_text = strip (a_text element),
                   link_is_displayed = a_displayed element\<rparr>]
            else []) elements)"

text \<open>
  The list comprehension: \<open>is_link_valid\<close> is called for displayed links only, and an
  exception it raises ends the comprehension.
\<close>

fun navigable_urls :: "runtime \<Rightarrow> link list \<Rightarrow> exn + pystr list" where
  "navigable_urls rt [] = Inr []"
| "navigable_urls rt (l # ls) =
     (if link_is_displayed l
      then and_then (is_link_valid rt (link_url l)) (\<lambda>valid.
             and_then (navigable_urls rt ls) (\<lambda>urls.
               Inr (if valid then clean_url (link_url l) # urls else urls)))
      else navigable_urls rt ls)"

definition get_navigable :: "runtime \<Rightarrow> exn + anchor list \<Rightarrow> exn + pystr list" where
  "get_navigable rt found =
     (case and_then found (\<lambda>elements. navigable_urls rt (collect_links elements)) of
        Inr urls \<Rightarrow> Inr urls
      | Inl e \<Rightarrow> if is_Exception e then Inr [] else Inl e)"


section \<open>Text extraction\<close>

subsection \<open>\<open>Browser.is_sentence\<close>\<close>

text \<open>
  The sentence-terminal marks of the source, in its order: full stop, fullwidth comma,
  comma, exclamation mark, question mark, ideographic full stop, fullwidth exclamation
  mark, fullwidth question mark, danda and Arabic full stop.
\<close>

definition terminal_marks :: "pystr list" where
  "terminal_marks =
     [[cp CHR ''.''], [65292], [cp CHR '',''], [cp CHR ''!''], [cp CHR ''?''], [12290],
      [65281], [65311], [2404], [1748]]"

definition findall_words :: "runtime \<Rightarrow> pystr \<Rightarrow> pystr list" where
  "findall_words rt s = runs (re_word rt) [] s"

definition is_sentence :: "runtime \<Rightarrow> pystr \<Rightarrow> bool" where
  "is_sentence rt text0 =
     (let txt = strip text0
      in if list_ex (isdigit rt) txt then True
         else (let words = findall_words rt txt;
                   word_count = length words;
                   has_punctuation = list_ex (\<lambda>p. endswith txt p) terminal_marks;
                   is_long_enough = word_count > 4
               in word_count \<ge> 5 \<and> (has_punctuation \<or> is_long_enough)))"

subsection \<open>The bracket pattern\<close>

text \<open>
  The regular expression \<open>\[(.*?)\]\((.*?)\)\<close>, matched at the start of a string, is
  used twice in the source: after a \<open>!\<close> for Markdown images in \<open>get_text\<close>, and on its
  own for the fill commands of \<open>fill_form_inputs\<close>. A dot matches every character but
  the line feed, and both groups are lazy.

  \<open>match_close s\<close> matches \<open>(.*?)\)\<close>: the second group and the number of characters
  read. \<open>match_groups s\<close> matches \<open>(.*?)\]\((.*?)\)\<close>: at each position it tries
  \<open>](\<close> and the rest first and lets the first group grow by one character when that
  fails.
\<close>

fun match_close :: "pystr \<Rightarrow> (pystr \<times> nat) option" where
  "match_close [] = None"
| "match_close (c # cs) =
     (if c = cp CHR '')'' then Some ([], 1)
      else if c = 10 then None
      else (case match_close cs of
              None \<Rightarrow> None
            | Some (g, n) \<Rightarrow> Some (c # g, Suc n)))"

fun match_groups :: "pystr \<Rightarrow> (pystr \<times> pystr \<times> nat) option" where
  "match_groups [] = None"
| "match_groups (c # cs) =
     (case (if startswith (c # cs) (py '']('') then match_close (drop 2 (c # cs))
            else None) of
        Some (g2, n) \<Rightarrow> Some ([], g2, 2 + n)
      | None \<Rightarrow>
          if c = 10 then None
          else (case match_groups cs of
                  None \<Rightarrow> None
                | Some (g1, g2, n) \<Rightarrow> Some (c # g1, g2, Suc n)))"

text \<open>
  The whole pattern at the start of \<open>s\<close>: the two groups and the length of the match.
\<close>

definition match_bracket_pair :: "pystr \<Rightarrow> (pystr \<times> pystr \<times> nat) option" where
  "match_bracket_pair s =
     (case s of
        [] \<Rightarrow> None
      | c # cs \<Rightarrow>
          if c = cp CHR ''[''
          then (case match_groups cs of
                  None \<Rightarrow> None
                | Some (g1, g2, n) \<Rightarrow> Some (g1, g2, Suc n))
          else None)"

subsection \<open>\<open>Browser.get_text\<close>\<close>

text \<open>
  \<open>re.sub(r'!\[(.*?)\]\(.*?\)', r'[IMAGE: \1]', result)\<close>: the matches are taken left
  to right and do not overlap; a character where no match starts is copied.
\<close>

fun sub_images :: "pystr \<Rightarrow> pystr" where
  "sub_images [] = []"
| "sub_images (c # cs) =
     (case (if c = cp CHR ''!'' then match_bracket_pair cs else None) of
        Some (alt, target, n) \<Rightarrow> py ''[IMAGE: '' @ alt @ py '']'' @ sub_images (drop n cs)
      | None \<Rightarrow> c # sub_images cs)"

text \<open>The loop over \<open>markdown_text.splitlines()\<close>.\<close>

fun kept_lines :: "runtime \<Rightarrow> pystr list \<Rightarrow> pystr list" where
  "kept_lines rt [] = []"
| "kept_lines rt (line # rest) =
     (let stripped = strip line
      in if stripped \<noteq> [] \<and> is_sentence rt stripped
         then join (py '' '') (split_ws stripped) # kept_lines rt rest
         else kept_lines rt rest)"

text \<open>The page before the final truncation.\<close>

definition render_page :: "runtime \<Rightarrow> pystr \<Rightarrow> pystr" where
  "render_page rt markdown_text =
     (let lines = kept_lines rt (splitlines markdown_text);
          result = py ''[Start of page]'' @ [10, 10] @ join [10, 10] lines @ [10, 10]
                     @ py ''[End of page]''
      in sub_images result)"

text \<open>
  The argument is the outcome of the conversion of the page source to Markdown
  (BeautifulSoup and markdownify, libraries outside the repository): the Markdown text,
  or the exception one of these steps raised. The result is \<open>None\<close> where the source
  returns \<open>None\<close>.
\<close>

definition get_text :: "runtime \<Rightarrow> exn + pystr \<Rightarrow> exn + pystr option" where
  "get_text rt converted =
     (case converted of
        Inr markdown_text \<Rightarrow> Inr (Some (take 8192 (render_page rt markdown_text)))
      | Inl e \<Rightarrow> if is_Exception e then Inr None else Inl e)"


section \<open>Navigation\<close>

subsection \<open>\<open>Browser.go_to\<close>\<close>









section \<open>Buttons\<close>

text \<open>
  A button as the driver reports it: its text, its \<open>value\<close> attribute (\<open>None\<close> when
  absent) and whether it is displayed and enabled. The driver gives the outcome of the
  two \<open>find_elements\<close> calls of \<open>get_buttons_xpath\<close> and, for an XPath, the outcome of
  the wait for clickability (with its timeout), of \<open>is_displayed\<close>, of \<open>is_enabled\<close>,
  of the scroll script and of \<open>click\<close>. The driver's answers are those of one moment:
  they do not change between the calls of one operation.
\<close>

record button =
  b_text :: pystr
  b_value :: "pystr option"
  b_displayed :: bool
  b_enabled :: bool

record driver =
  d_buttons :: "exn + button list"
  d_submit_inputs :: "exn + button list"
  d_clickable :: "int \<Rightarrow> pystr \<Rightarrow> exn + unit"
  d_is_displayed :: "pystr \<Rightarrow> exn + bool"
  d_is_enabled :: "pystr \<Rightarrow> exn + bool"
  d_scroll_into_view :: "pystr \<Rightarrow> exn + unit"
  d_click :: "pystr \<Rightarrow> exn + unit"

subsection \<open>\<open>Browser.get_buttons_xpath\<close>\<close>

text \<open>\<open>button.text or button.get_attribute("value") or ""\<close>.\<close>

definition button_label :: "button \<Rightarrow> pystr" where
  "button_label b =
     (if b_text b \<noteq> [] then b_text b
      else (case b_value b of
              None \<Rightarrow> []
            | Some v \<Rightarrow> if v \<noteq> [] then v else []))"

definition button_xpath :: "nat \<Rightarrow> pystr" where
  "button_xpath i = py ''(//button | //input[@type='submit'])['' @ str_of_nat (i + 1) @ py '']''"

text \<open>The loop over \<open>enumerate(buttons)\<close>, from index \<open>i\<close> on.\<close>

fun button_entries :: "runtime \<Rightarrow> nat \<Rightarrow> button list \<Rightarrow> (pystr \<times> pystr) list" where
  "button_entries rt i [] = []"
| "button_entries rt i (b # bs) =
     (if \<not> b_displayed b \<or> \<not> b_enabled b then button_entries rt (Suc i) bs
      else (remove_spaces (lower rt (button_label b)), button_xpath i)
             # button_entries rt (Suc i) bs)"

text \<open>\<open>result.sort(key=lambda x: len(x[0]))\<close> is stable, as \<open>sort_key\<close> is.\<close>

definition get_buttons_xpath :: "runtime \<Rightarrow> driver \<Rightarrow> exn + (pystr \<times> pystr) list" where
  "get_buttons_xpath rt d =
     and_then (d_buttons d) (\<lambda>tagged.
     and_then (d_submit_inputs d) (\<lambda>submits.
     Inr (sort_key (\<lambda>x. length (fst x)) (button_entries rt 0 (tagged @ submits)))))"

subsection \<open>\<open>Browser.click_element\<close>\<close>

text \<open>
  The inner \<open>try\<close> names \<open>ElementClickInterceptedException\<close> in its \<open>except\<close> clause,
  a name the module never imports: when the scroll or the click raises, looking the
  name up raises \<open>NameError\<close> in place of the exception, and the outer handlers see
  that \<open>NameError\<close>. The outer handlers catch \<open>TimeoutException\<close> and then every
  \<open>Exception\<close>, and both return \<open>False\<close>. \<open>self.wait\<close> has a timeout of 10.
\<close>

definition click_element :: "driver \<Rightarrow> pystr \<Rightarrow> exn + bool" where
  "click_element d xpath =
     (case
        and_then (d_clickable d 10 xpath) (\<lambda>element.
        and_then (d_is_displayed d xpath) (\<lambda>displayed.
          if \<not> displayed then Inr False
          else and_then (d_is_enabled d xpath) (\<lambda>enabled.
            if \<not> enabled then Inr False
            else (case and_then (d_scroll_into_view d xpath) (\<lambda>_.
                       and_then (d_click d xpath) (\<lambda>_. Inr True)) of
                    Inr r \<Rightarrow> Inr r
                  | Inl e \<Rightarrow> Inl NameError))))
      of
        Inr r \<Rightarrow> Inr r
      | Inl e \<Rightarrow>
          if e = TimeoutException then Inr False
          else if is_Exception e then Inr False
          else Inl e)"

subsection \<open>\<open>Browser.find_and_click_btn\<close>\<close>

text \<open>
  The loop returns at the first button whose label contains the kind, whatever the
  click gives, so it is a search for that button. \<open>get_buttons_xpath\<close> is called
  outside the \<open>try\<close> statement.
\<close>

definition label_matches :: "runtime \<Rightarrow> pystr \<Rightarrow> pystr \<times> pystr \<Rightarrow> bool" where
  "label_matches rt btn_type entry = contains (lower rt (fst entry)) (lower rt btn_type)"

definition find_and_click_btn :: "runtime \<Rightarrow> driver \<Rightarrow> pystr \<Rightarrow> int \<Rightarrow> exn + bool" where
  "find_and_click_btn rt d btn_type timeout =
     and_then (get_buttons_xpath rt d) (\<lambda>buttons.
       if buttons = [] then Inr False
       else (case find (label_matches rt btn_type) buttons of
               None \<Rightarrow> Inr False
             | Some (button_text, xpath) \<Rightarrow>
                 (case and_then (d_clickable d timeout xpath) (\<lambda>element.
                         and_then (click_element d xpath) (\<lambda>clicked.
                           if clicked then Inr True else Inr False)) of
                    Inr r \<Rightarrow> Inr r
                  | Inl e \<Rightarrow>
                      if e = TimeoutException then Inr False
                      else if is_Exception e then Inr False
                      else Inl e)))"

subsection \<open>\<open>Browser.find_and_click_submission\<close>\<close>

definition possible_submissions :: "pystr list" where
  "possible_submissions =
     [py ''login'', py ''submit'', py ''register'', py ''calculate'', py ''login'',
      py ''submit'', py ''register'', py ''calculate'', py ''save'', py ''send'',
      py ''continue'', py ''apply'', py ''ok'', py ''confirm'', py ''next'', py ''proceed'',
      py ''accept'', py ''agree'', py ''yes'', py ''no'', py ''cancel'',
      py ''close'', py ''done'', py ''finish'', py ''start'', py ''calculate'']"

fun try_submissions :: "runtime \<Rightarrow> driver \<Rightarrow> int \<Rightarrow> pystr list \<Rightarrow> exn + bool" where
  "try_submissions rt d timeout [] = Inr False"
| "try_submissions rt d timeout (submission # rest) =
     and_then (find_and_click_btn rt d submission timeout) (\<lambda>clicked.
       if clicked then Inr True else try_submissions rt d timeout rest)"

definition find_and_click_submission :: "runtime \<Rightarrow> driver \<Rightarrow> int \<Rightarrow> exn + bool" where
  "find_and_click_submission rt d timeout = try_submissions rt d timeout possible_submissions"


section \<open>Forms\<close>

text \<open>
  The page is a store from XPath to element. An element has its \<open>type\<close> attribute
  (\<open>None\<close> when absent), its checked state and its value. \<open>click\<close> toggles a checkbox
  and selects a radio button, \<open>clear\<close> empties the value and \<open>send_keys\<close> types at the
  end of it. An input descriptor, as the injected script returns it, has a label text
  and an XPath.
\<close>

record input_field =
  f_text :: pystr
  f_xpath :: pystr

record element =
  e_type :: "pystr option"
  e_selected :: bool
  e_value :: pystr

type_synonym page = "pystr \<rightharpoonup> element"

text \<open>\<open>(element.get_attribute("type") or "text").lower()\<close>.\<close>

definition input_type :: "runtime \<Rightarrow> element \<Rightarrow> pystr" where
  "input_type rt el =
     lower rt (case e_type el of
                 None \<Rightarrow> py ''text''
               | Some t \<Rightarrow> if t \<noteq> [] then t else py ''text'')"

definition element_click :: "runtime \<Rightarrow> element \<Rightarrow> element" where
  "element_click rt el =
     (if input_type rt el = py ''checkbox'' then el\<lparr>e_selected := \<not> e_selected el\<rparr>
      else if input_type rt el = py ''radio'' then el\<lparr>e_selected := True\<rparr>
      else el)"

definition element_clear :: "element \<Rightarrow> element" where
  "element_clear el = el\<lparr>e_value := []\<rparr>"

definition element_send_keys :: "element \<Rightarrow> pystr \<Rightarrow> element" where
  "element_send_keys el keys = el\<lparr>e_value := e_value el @ keys\<rparr>"

subsection \<open>\<open>Browser.find_input_xpath_by_name\<close>\<close>

fun find_input_xpath_by_name :: "input_field list \<Rightarrow> pystr \<Rightarrow> pystr option" where
  "find_input_xpath_by_name [] name = None"
| "find_input_xpath_by_name (field # rest) name =
     (if contains (f_text field) name then Some (f_xpath field)
      else find_input_xpath_by_name rest name)"

subsection \<open>\<open>Browser.fill_form_inputs\<close>\<close>

text \<open>
  One turn of the loop: the page after it, or the exception raised in it
  (\<open>driver.find_element\<close> raises \<open>NoSuchElementException\<close> where the page has no
  element at the XPath).
\<close>

definition fill_input :: "runtime \<Rightarrow> input_field list \<Rightarrow> page \<Rightarrow> pystr \<Rightarrow> exn + page" where
  "fill_input rt inputs pg input_str =
     (case match_bracket_pair input_str of
        None \<Rightarrow> Inr pg
      | Some (g1, g2, n) \<Rightarrow>
          (let name = strip g1; val = strip g2
           in case find_input_xpath_by_name inputs name of
                None \<Rightarrow> Inr pg
              | Some xpath \<Rightarrow>
                  if xpath = [] then Inr pg
                  else (case pg xpath of
                          None \<Rightarrow> Inl NoSuchElementException
                        | Some el \<Rightarrow>
                            if input_type rt el = py ''checkbox'' \<or> input_type rt el = py ''radio''
                            then (let is_checked = e_selected el;
                                      should_be_checked = (lower rt val = py ''checked'')
                                  in if is_checked \<noteq> should_be_checked
                                     then Inr (pg(xpath \<mapsto> element_click rt el))
                                     else Inr pg)
                            else Inr (pg(xpath \<mapsto>
                                   element_send_keys (element_clear el) val)))))"

text \<open>
  The loop inside the \<open>try\<close> statement: the result and the page it leaves. What was
  filled before an exception stays filled.
\<close>

fun fill_loop :: "runtime \<Rightarrow> input_field list \<Rightarrow> page \<Rightarrow> pystr list \<Rightarrow> (exn + bool) \<times> page" where
  "fill_loop rt inputs pg [] = (Inr True, pg)"
| "fill_loop rt inputs pg (input_str # rest) =
     (case fill_input rt inputs pg input_str of
        Inl e \<Rightarrow> (if is_Exception e then Inr False else Inl e, pg)
      | Inr pg' \<Rightarrow> fill_loop rt inputs pg' rest)"

text \<open>
  \<open>found\<close> is the outcome of \<open>find_all_inputs\<close>, which is called before the \<open>try\<close>
  statement.
\<close>

definition fill_form_inputs ::
  "runtime \<Rightarrow> exn + input_field list \<Rightarrow> page \<Rightarrow> pystr list \<Rightarrow> (exn + bool) \<times> page" where
  "fill_form_inputs rt found pg input_list =
     (case found of
        Inl e \<Rightarrow> (Inl e, pg)
      | Inr inputs \<Rightarrow> fill_loop rt inputs pg input_list)"


section \<open>Notions used in the properties\<close>

subsection \<open>Query parameters\<close>

text \<open>
  The two tests of the loop of \<open>clean_url\<close>: a parameter is essential when it starts
  with \<open>_skw=\<close>, \<open>q=\<close> or \<open>s=\<close>, and it has a noise prefix when it starts with \<open>_\<close>,
  \<open>hash=\<close> or \<open>itmmeta=\<close>.
\<close>

definition is_essential :: "pystr \<Rightarrow> bool" where
  "is_essential param =
     (startswith param (py ''_skw='') \<or> startswith param (py ''q='')
      \<or> startswith param (py ''s=''))"

definition has_noise_prefix :: "pystr \<Rightarrow> bool" where
  "has_noise_prefix param =
     (startswith param (py ''_'') \<or> startswith param (py ''hash='')
      \<or> startswith param (py ''itmmeta=''))"

text \<open>
  The loop stops at the first parameter that is not essential and has a noise prefix
  (the test for essential parameters comes first in the source, so a \<open>_skw=\<close>
  parameter is kept and does not stop the scan).
\<close>

definition stops_scan :: "pystr \<Rightarrow> bool" where
  "stops_scan param = (has_noise_prefix param \<and> \<not> is_essential param)"

subsection \<open>Navigable links\<close>

text \<open>
  The invariant of a navigable link as the specification states it: at most 64
  characters, a scheme and a host, no path that ends in a numeric segment and no
  blocked extension at the end of the URL. It is what \<open>is_link_valid\<close> tests.
\<close>

definition navigable_link :: "runtime \<Rightarrow> pystr \<Rightarrow> bool" where
  "navigable_link rt u =
     (length u \<le> 64
      \<and> (case urlparse rt u of
            Inl e \<Rightarrow> False
          | Inr p \<Rightarrow> scheme p \<noteq> [] \<and> netloc p \<noteq> [] \<and> \<not> search_numeric_tail rt (path p))
      \<and> \<not> has_blocked_extension rt u)"

text \<open>
  \<open>prepare\<close> is the first step of \<open>urlparse\<close>. A text has no cut when it holds neither
  \<open>#\<close> nor \<open>?\<close>, and a tail is cut when it is empty or starts with one of them.
\<close>

definition prepare :: "pystr \<Rightarrow> pystr" where
  "prepare url0 = filter (\<lambda>c. \<not> is_unsafe_byte c) (dropWhile is_c0_or_space url0)"

definition cut_tail :: "pystr \<Rightarrow> bool" where
  "cut_tail r = (r = [] \<or> hd r = cp CHR ''#'' \<or> hd r = cp CHR ''?'')"

definition no_cut :: "pystr \<Rightarrow> bool" where
  "no_cut b = (cp CHR ''#'' \<notin> set b \<and> cp CHR ''?'' \<notin> set b)"

subsection \<open>The vocabulary of the specification\<close>

text \<open>
  The labels \<open>find_and_click_submission\<close> tries, as the specification lists them:
  each label once, in the order of its first place in \<open>possible_submissions\<close>.
  \<open>dedup_after tried xs\<close> drops from \<open>xs\<close> what is in \<open>tried\<close> or occurs earlier in
  \<open>xs\<close>.
\<close>

definition submission_vocabulary :: "pystr list" where
  "submission_vocabulary =
     [py ''login'', py ''submit'', py ''register'', py ''calculate'', py ''save'',
      py ''send'', py ''continue'', py ''apply'', py ''ok'', py ''confirm'', py ''next'',
      py ''proceed'', py ''accept'', py ''agree'', py ''yes'', py ''no'', py ''cancel'',
      py ''close'', py ''done'', py ''finish'', py ''start'']"

fun dedup_after :: "'a list \<Rightarrow> 'a list \<Rightarrow> 'a list" where
  "dedup_after tried [] = []"
| "dedup_after tried (x # xs) =
     (if x \<in> set tried then dedup_after tried xs else x # dedup_after (tried @ [x]) xs)"


section \<open>Example inputs\<close>




text \<open>
  A button that is displayed and enabled, and the driver of a page with the given
  \<open>button\<close> elements on which every wait, scroll and click succeeds. On the broken
  driver the wait for clickability fails with an error of the driver; on the
  intercepted driver another element receives the click.
\<close>

definition button_named :: "pystr \<Rightarrow> button" where
  "button_named label =
     \<lparr>b_text = label, b_value = None, b_displayed = True, b_enabled = True\<rparr>"

definition page_driver :: "button list \<Rightarrow> driver" where
  "page_driver bs =
     \<lparr>d_buttons = Inr bs, d_submit_inputs = Inr [], d_clickable = (\<lambda>t x. Inr ()),
      d_is_displayed = (\<lambda>x. Inr True), d_is_enabled = (\<lambda>x. Inr True),
      d_scroll_into_view = (\<lambda>x. Inr ()), d_click = (\<lambda>x. Inr ())\<rparr>"

definition broken_driver :: driver where
  "broken_driver =
     (page_driver [button_named (py ''Sign Up'')])
       \<lparr>d_clickable := (\<lambda>t x. Inl WebDriverException)\<rparr>"

definition intercepted_driver :: driver where
  "intercepted_driver =
     (page_driver [button_named (py ''Sign Up'')])
       \<lparr>d_click := (\<lambda>x. Inl ElementClickInterceptedException)\<rparr>"

text \<open>On the unlisted driver the buttons cannot be listed: the search for them fails.\<close>

definition unlisted_driver :: driver where
  "unlisted_driver = (page_driver [])\<lparr>d_buttons := Inl WebDriverException\<rparr>"

text \<open>
  A page with a name field and an e-mail field that holds an old address, and the
  descriptors of its two inputs.
\<close>

definition email_inputs :: "input_field list" where
  "email_inputs = [\<lparr>f_text = py ''Name'', f_xpath = py ''//input[1]''\<rparr>,
                   \<lparr>f_text = py ''Your email'', f_xpath = py ''//input[2]''\<rparr>]"

definition email_page :: page where
  "email_page =
     [py ''//input[1]'' \<mapsto> \<lparr>e_type = None, e_selected = False, e_value = []\<rparr>,
      py ''//input[2]'' \<mapsto> \<lparr>e_type = Some (py ''email''), e_selected = False,
                                e_value = py ''old@b.com''\<rparr>]"

text \<open>
  Two anchors: a link to an image with a version in its query, and a link to a search
  page with a tracking parameter and a fragment.
\<close>

definition logo_anchor :: anchor where
  "logo_anchor =
     \<lparr>a_href = Some (py ''http://a.b/logo.png?v=2''), a_text = py ''logo'', a_displayed = True\<rparr>"

definition search_anchor :: anchor where
  "search_anchor =
     \<lparr>a_href = Some (py ''https://a.b/find?q=x&utm=1#top''), a_text = py ''find'',
      a_displayed = True\<rparr>"


section \<open>Properties of the string operations\<close>

declare split_on.simps [simp del]

lemma dropWhile_absent: "c \<notin> set s \<Longrightarrow> dropWhile (\<lambda>x. x \<noteq> c) s = []"
  by (induction s) auto

lemma takeWhile_absent: "c \<notin> set s \<Longrightarrow> takeWhile (\<lambda>x. x \<noteq> c) s = s"
  by (induction s) auto

lemma dropWhile_at_sep: "c \<notin> set a \<Longrightarrow> dropWhile (\<lambda>x. x \<noteq> c) (a @ c # b) = c # b"
  by (induction a) auto

lemma takeWhile_at_sep: "c \<notin> set a \<Longrightarrow> takeWhile (\<lambda>x. x \<noteq> c) (a @ c # b) = a"
  by (induction a) auto

lemma takeWhile_has_no_sep: "c \<notin> set (takeWhile (\<lambda>x. x \<noteq> c) s)"
  by (auto dest: set_takeWhileD)

lemma split_on_no_sep: "c \<notin> set s \<Longrightarrow> split_on c s = [s]"
  by (subst split_on.simps) (simp add: dropWhile_absent)

lemma split_on_sep: "c \<notin> set a \<Longrightarrow> split_on c (a @ c # b) = a # split_on c b"
  by (subst split_on.simps) (simp add: dropWhile_at_sep takeWhile_at_sep)

lemma split_on_neq_Nil: "split_on c s \<noteq> []"
  by (subst split_on.simps) (simp split: list.splits)

lemma hd_split_on: "hd (split_on c s) = takeWhile (\<lambda>x. x \<noteq> c) s"
proof (cases "c \<in> set s")
  case True
  then obtain a b where "s = a @ c # b" "c \<notin> set a"
    by (meson split_list_first)
  then show ?thesis by (simp add: split_on_sep takeWhile_at_sep)
next
  case False
  then show ?thesis by (simp add: split_on_no_sep takeWhile_absent)
qed

lemma split_on_pieces: "p \<in> set (split_on c s) \<Longrightarrow> set p \<subseteq> set s \<and> c \<notin> set p"
proof (induction s arbitrary: p rule: length_induct)
  case (1 s)
  show ?case
  proof (cases "c \<in> set s")
    case False
    with "1.prems" show ?thesis by (simp add: split_on_no_sep)
  next
    case True
    then obtain a b where s: "s = a @ c # b" and a: "c \<notin> set a"
      by (meson split_list_first)
    from "1.prems" s a have "p = a \<or> p \<in> set (split_on c b)"
      by (simp add: split_on_sep)
    then show ?thesis
    proof
      assume "p = a"
      with s a show ?thesis by auto
    next
      assume "p \<in> set (split_on c b)"
      moreover have "length b < length s" using s by simp
      ultimately have "set p \<subseteq> set b \<and> c \<notin> set p" using "1.IH" by blast
      with s show ?thesis by auto
    qed
  qed
qed

lemma split_on_join:
  "ps \<noteq> [] \<Longrightarrow> (\<And>p. p \<in> set ps \<Longrightarrow> c \<notin> set p) \<Longrightarrow> split_on c (join [c] ps) = ps"
proof (induction "[c]" ps rule: join.induct)
  case 1
  then show ?case by simp
next
  case (2 x)
  then show ?case by (simp add: split_on_no_sep)
next
  case (3 x y ys)
  then show ?case by (simp add: split_on_sep)
qed

lemma set_tl_subset: "set (tl xs) \<subseteq> set xs"
  by (cases xs) auto

lemma set_join: "set (join sep ps) \<subseteq> set sep \<union> \<Union> (set ` set ps)"
  by (induction sep ps rule: join.induct) auto

lemma length_join_le: "length (join [c] ps) \<le> length (join [c] (p # ps))"
  by (cases ps) simp_all

section \<open>Properties of \<open>clean_url\<close>\<close>

lemma essential_params_eq:
  "essential_params ps = filter is_essential (takeWhile (\<lambda>p. \<not> stops_scan p) ps)"
  by (induction ps) (auto simp: is_essential_def has_noise_prefix_def stops_scan_def)

lemma essential_params_fixed:
  "list_all is_essential ps \<Longrightarrow> essential_params ps = ps"
  by (induction ps) (auto simp: is_essential_def)

lemma essential_params_subset:
  "set (essential_params ps) \<subseteq> {p \<in> set ps. is_essential p}"
  unfolding essential_params_eq by (auto dest: set_takeWhileD)

text \<open>The result of \<open>clean_url\<close> in terms of the text before the first \<open>#\<close>.\<close>

lemma clean_url_unfold:
  "clean_url url =
     (let clean = takeWhile (\<lambda>c. c \<noteq> cp CHR ''#'') url;
          base_url = takeWhile (\<lambda>c. c \<noteq> cp CHR ''?'') clean;
          params = (if cp CHR ''?'' \<in> set clean
                    then split_on (cp CHR ''&'')
                           (tl (dropWhile (\<lambda>c. c \<noteq> cp CHR ''?'') clean))
                    else []);
          kept = essential_params params
      in if kept = [] then base_url else base_url @ py ''?'' @ join (py ''&'') kept)"
proof (cases "cp CHR ''?'' \<in> set (takeWhile (\<lambda>c. c \<noteq> cp CHR ''#'') url)")
  case True
  then obtain a b where ab: "takeWhile (\<lambda>c. c \<noteq> cp CHR ''#'') url = a @ cp CHR ''?'' # b"
      and a: "cp CHR ''?'' \<notin> set a"
    by (meson split_list_first)
  have "split_once (cp CHR ''?'') (a @ cp CHR ''?'' # b) = [a, b]"
    using a by (simp add: split_once_def dropWhile_at_sep takeWhile_at_sep)
  then show ?thesis
    using a True unfolding clean_url_def hd_split_on ab Let_def
    by (simp add: dropWhile_at_sep takeWhile_at_sep)
next
  case False
  then have "split_once (cp CHR ''?'') (takeWhile (\<lambda>c. c \<noteq> cp CHR ''#'') url)
      = [takeWhile (\<lambda>c. c \<noteq> cp CHR ''#'') url]"
    by (simp add: split_once_def dropWhile_absent)
  then show ?thesis
    using False unfolding clean_url_def hd_split_on Let_def
    by (simp add: takeWhile_absent)
qed


lemma clean_url_of_cleaned:
  assumes base: "cp CHR ''#'' \<notin> set base" "cp CHR ''?'' \<notin> set base"
    and kept: "kept \<noteq> []" "list_all is_essential kept"
      "\<And>p. p \<in> set kept \<Longrightarrow> cp CHR ''&'' \<notin> set p \<and> cp CHR ''#'' \<notin> set p"
  shows "clean_url (base @ py ''?'' @ join (py ''&'') kept) = base @ py ''?'' @ join (py ''&'') kept"
proof -
  let ?q = "join [cp CHR ''&''] kept"
  let ?u = "base @ cp CHR ''?'' # ?q"
  have amp: "py ''&'' = [cp CHR ''&'']" and qm: "py ''?'' = [cp CHR ''?'']"
    by (simp_all add: py_def)
  have "set ?q \<subseteq> set [cp CHR ''&''] \<union> \<Union> (set ` set kept)"
    by (rule set_join)
  then have noq: "cp CHR ''#'' \<notin> set ?q"
    using kept(3) by auto
  then have nou: "cp CHR ''#'' \<notin> set ?u"
    using base by simp
  have clean: "takeWhile (\<lambda>c. c \<noteq> cp CHR ''#'') ?u = ?u"
    using nou by (rule takeWhile_absent)
  have b: "takeWhile (\<lambda>c. c \<noteq> cp CHR ''?'') ?u = base"
    using base(2) by (rule takeWhile_at_sep)
  have d: "tl (dropWhile (\<lambda>c. c \<noteq> cp CHR ''?'') ?u) = ?q"
    using base(2) by (simp add: dropWhile_at_sep)
  have sp: "split_on (cp CHR ''&'') ?q = kept"
    using kept(1,3) by (intro split_on_join) auto
  have e: "essential_params kept = kept"
    using kept(2) by (rule essential_params_fixed)
  have "clean_url ?u = base @ py ''?'' @ join (py ''&'') kept"
    unfolding clean_url_unfold clean Let_def b d
    using kept(1) sp e by (simp add: amp)
  then show ?thesis by (simp add: amp qm)
qed

text \<open>
  Claim C2. \<open>clean_url\<close> is idempotent: cleaning a cleaned URL changes nothing, for
  every input string.
\<close>

theorem clean_url_idempotent: "clean_url (clean_url u) = clean_url u"
proof -
  define clean where "clean = takeWhile (\<lambda>c. c \<noteq> cp CHR ''#'') u"
  define base where "base = takeWhile (\<lambda>c. c \<noteq> cp CHR ''?'') clean"
  define params where "params = (if cp CHR ''?'' \<in> set clean
      then split_on (cp CHR ''&'') (tl (dropWhile (\<lambda>c. c \<noteq> cp CHR ''?'') clean)) else [])"
  define kept where "kept = essential_params params"
  have u: "clean_url u = (if kept = [] then base else base @ py ''?'' @ join (py ''&'') kept)"
    unfolding clean_url_unfold [of u] Let_def clean_def base_def params_def kept_def ..
  have nohash: "cp CHR ''#'' \<notin> set clean"
    unfolding clean_def by (rule takeWhile_has_no_sep)
  have base1: "cp CHR ''?'' \<notin> set base"
    unfolding base_def by (rule takeWhile_has_no_sep)
  have base2: "cp CHR ''#'' \<notin> set base"
    using nohash unfolding base_def by (auto dest: set_takeWhileD)
  show ?thesis
  proof (cases "kept = []")
    case True
    have "clean_url base = base"
      unfolding clean_url_unfold [of base] Let_def
      using base1 base2 by (simp add: takeWhile_absent)
    with True u show ?thesis by simp
  next
    case False
    have ess: "list_all is_essential kept"
      using essential_params_subset [of params] unfolding kept_def list_all_iff by blast
    have pieces: "cp CHR ''&'' \<notin> set p \<and> cp CHR ''#'' \<notin> set p" if "p \<in> set kept" for p
    proof -
      from that have p: "p \<in> set params"
        using essential_params_subset [of params] unfolding kept_def by blast
      then have q: "cp CHR ''?'' \<in> set clean"
        unfolding params_def by (auto split: if_splits)
      with p have "p \<in> set (split_on (cp CHR ''&'') (tl (dropWhile (\<lambda>c. c \<noteq> cp CHR ''?'') clean)))"
        unfolding params_def by simp
      then have "set p \<subseteq> set (tl (dropWhile (\<lambda>c. c \<noteq> cp CHR ''?'') clean)) \<and> cp CHR ''&'' \<notin> set p"
        by (rule split_on_pieces)
      moreover have "set (tl (dropWhile (\<lambda>c. c \<noteq> cp CHR ''?'') clean)) \<subseteq> set clean"
        using set_tl_subset [of "dropWhile (\<lambda>c. c \<noteq> cp CHR ''?'') clean"]
          set_dropWhileD [of _ "\<lambda>c. c \<noteq> cp CHR ''?''" clean] by blast
      ultimately show ?thesis using nohash by blast
    qed
    have "clean_url (base @ py ''?'' @ join (py ''&'') kept) = base @ py ''?'' @ join (py ''&'') kept"
      using base2 base1 False ess pieces by (rule clean_url_of_cleaned)
    with False u show ?thesis by simp
  qed
qed

theorem clean_url_idempotent_witness:
  "clean_url (clean_url (py ''http://a.b/c?x=1&q=2&_skw=3&_z=1&s=4#frag''))
     = py ''http://a.b/c?q=2&_skw=3''"
  using clean_url_idempotent [of "py ''http://a.b/c?x=1&q=2&_skw=3&_z=1&s=4#frag''"]
  by (simp add: clean_url_def py_def split_on.simps split_once_def startswith_def)

text \<open>
  Claim C7. \<open>clean_url\<close> drops everything from the first \<open>#\<close> on. The base is the
  text before the first \<open>?\<close>; the query after it is split at \<open>&\<close> and scanned from
  the left up to the first parameter that stops the scan (one with the prefix \<open>_\<close>,
  \<open>hash=\<close> or \<open>itmmeta=\<close>; a \<open>_skw=\<close> parameter is kept, it does not stop the
  scan), the rest of the query being discarded; of the parameters scanned exactly
  those that start with \<open>_skw=\<close>, \<open>q=\<close> or \<open>s=\<close> are retained, in their order, and
  joined to the base with \<open>?\<close> and \<open>&\<close>. With nothing retained the result is the base.
\<close>

theorem clean_url_keeps_essential_params:
  "clean_url url =
     (let clean = takeWhile (\<lambda>c. c \<noteq> cp CHR ''#'') url;
          base_url = takeWhile (\<lambda>c. c \<noteq> cp CHR ''?'') clean;
          params = (if cp CHR ''?'' \<in> set clean
                    then split_on (cp CHR ''&'')
                           (tl (dropWhile (\<lambda>c. c \<noteq> cp CHR ''?'') clean))
                    else []);
          kept = filter is_essential (takeWhile (\<lambda>p. \<not> stops_scan p) params)
      in if kept = [] then base_url else base_url @ py ''?'' @ join (py ''&'') kept)"
  by (simp only: clean_url_unfold essential_params_eq)

theorem clean_url_keeps_essential_params_witness:
  "clean_url (py ''http://a.b/c?x=1&q=2&_skw=3&_z=1&s=4#frag'') = py ''http://a.b/c?q=2&_skw=3''"
  using clean_url_keeps_essential_params [of "py ''http://a.b/c?x=1&q=2&_skw=3&_z=1&s=4#frag''"]
  by (simp add: py_def split_on.simps is_essential_def stops_scan_def has_noise_prefix_def
      startswith_def)


section \<open>Properties of the text extraction\<close>

text \<open>
  Claim C4. For every line, \<open>is_sentence\<close> holds exactly when the stripped line has a
  digit, or at least 5 word tokens, or more than 4 word tokens and one of the
  sentence-terminal marks at its end. \<open>Hello world how are you today\<close> and
  \<open>Price: 42\<close> are sentences, \<open>OK\<close> and \<open>Done.\<close> are not.
\<close>

theorem is_sentence_rule:
  "is_sentence rt line =
     (let t = strip line; word_count = length (findall_words rt t)
      in list_ex (isdigit rt) t \<or> word_count \<ge> 5
         \<or> (word_count > 4 \<and> list_ex (\<lambda>p. endswith t p) terminal_marks))
   \<and> is_sentence rt (py ''Hello world how are you today'')
   \<and> \<not> is_sentence rt (py ''OK'')
   \<and> is_sentence rt (py ''Price: 42'')
   \<and> \<not> is_sentence rt (py ''Done.'')"
proof -
  have general: "is_sentence rt line =
     (let t = strip line; word_count = length (findall_words rt t)
      in list_ex (isdigit rt) t \<or> word_count \<ge> 5
         \<or> (word_count > 4 \<and> list_ex (\<lambda>p. endswith t p) terminal_marks))"
    unfolding is_sentence_def Let_def by auto
  note ev = is_sentence_def py_def strip_def isspace_def isdigit_def ascii_isdigit_def
    findall_words_def re_word_def ascii_isalpha_def
  have e1: "is_sentence rt (py ''Hello world how are you today'')"
    by (simp add: ev)
  have e2: "\<not> is_sentence rt (py ''OK'')"
    by (simp add: ev)
  have e3: "is_sentence rt (py ''Price: 42'')"
    by (simp add: ev)
  have e4: "\<not> is_sentence rt (py ''Done.'')"
    by (simp add: ev)
  from general e1 e2 e3 e4 show ?thesis by blast
qed

theorem is_sentence_rule_witness:
  "is_sentence ascii_runtime (py ''Price: 42'') \<and> \<not> is_sentence ascii_runtime (py ''Done.'')"
  using is_sentence_rule [of ascii_runtime "[]"] by blast

subsection \<open>The image substitution works line by line\<close>

lemma match_close_bound: "match_close s = Some (g, n) \<Longrightarrow> n \<le> length s"
  by (induction s arbitrary: g n) (auto split: if_splits option.splits)

lemma match_close_line: "match_close (a @ 10 # b) = match_close a"
  by (induction a) auto

lemma match_groups_bound: "match_groups s = Some (g1, g2, n) \<Longrightarrow> n \<le> length s"
proof (induction s arbitrary: g1 g2 n)
  case Nil
  then show ?case by simp
next
  case (Cons c cs)
  show ?case
  proof (cases "if startswith (c # cs) (py '']('') then match_close (drop 2 (c # cs)) else None")
    case None
    with Cons.prems obtain h m where "match_groups cs = Some (h, g2, m)" "n = Suc m"
      by (auto split: if_splits option.splits)
    with Cons.IH show ?thesis by fastforce
  next
    case (Some r)
    obtain g m where r: "r = (g, m)" by (cases r)
    from Some r have st: "startswith (c # cs) (py '']('')"
      and mc: "match_close (drop 2 (c # cs)) = Some (g, m)"
      by (auto split: if_splits)
    from mc have "m \<le> length (drop 2 (c # cs))" by (rule match_close_bound)
    moreover from st have "2 \<le> length (c # cs)"
      by (auto simp: startswith_def py_def prefix_def)
    moreover from Cons.prems Some r have "n = 2 + m" by simp
    ultimately show ?thesis by simp
  qed
qed

lemma startswith_two_line:
  "startswith (c # cs @ 10 # b) (py '']('') = startswith (c # cs) (py '']('')"
  by (cases cs) (auto simp: startswith_def py_def)

lemma match_groups_line: "match_groups (a @ 10 # b) = match_groups a"
proof (induction a)
  case Nil
  then show ?case by (simp add: startswith_def py_def)
next
  case (Cons c cs)
  have d: "startswith (c # cs) (py '']('') \<Longrightarrow>
      match_close (drop 2 (c # cs @ 10 # b)) = match_close (drop 2 (c # cs))"
    by (cases cs) (auto simp: startswith_def py_def match_close_line)
  show ?case
    using Cons.IH d
    by (simp add: startswith_two_line del: drop_Suc_Cons cong: option.case_cong if_cong)
qed

lemma match_bracket_pair_bound: "match_bracket_pair s = Some (g1, g2, n) \<Longrightarrow> n \<le> length s"
  by (auto simp: match_bracket_pair_def split: list.splits if_splits option.splits
      dest: match_groups_bound)

lemma match_bracket_pair_line: "match_bracket_pair (a @ 10 # b) = match_bracket_pair a"
  by (cases a) (simp_all add: match_bracket_pair_def match_groups_line)

lemma sub_images_line: "sub_images (a @ 10 # b) = sub_images a @ 10 # sub_images b"
proof (induction a rule: length_induct)
  case (1 a)
  show ?case
  proof (cases a)
    case Nil
    then show ?thesis by simp
  next
    case (Cons c cs)
    show ?thesis
    proof (cases "if c = cp CHR ''!'' then match_bracket_pair cs else None")
      case None
      then have "(if c = cp CHR ''!'' then match_bracket_pair (cs @ 10 # b) else None) = None"
        by (simp add: match_bracket_pair_line split: if_splits)
      moreover have "sub_images (cs @ 10 # b) = sub_images cs @ 10 # sub_images b"
        using "1.IH" Cons by simp
      ultimately show ?thesis using None Cons by simp
    next
      case (Some r)
      obtain alt target n where r: "r = (alt, target, n)" by (cases r)
      from Some r have m: "match_bracket_pair cs = Some (alt, target, n)"
        by (simp split: if_splits)
      then have n: "n \<le> length cs" by (rule match_bracket_pair_bound)
      have same: "(if c = cp CHR ''!'' then match_bracket_pair (cs @ 10 # b) else None)
          = Some (alt, target, n)"
        using Some r by (simp add: match_bracket_pair_line split: if_splits)
      have "length (drop n cs) < length a" using Cons by simp
      then have "sub_images (drop n cs @ 10 # b) = sub_images (drop n cs) @ 10 # sub_images b"
        using "1.IH" by blast
      then show ?thesis using same Some r n Cons by simp
    qed
  qed
qed

lemma sub_images_plain: "cp CHR ''!'' \<notin> set s \<Longrightarrow> sub_images s = s"
  by (induction s) auto

lemma prefix_take: "length p \<le> n \<Longrightarrow> prefix p s \<Longrightarrow> prefix p (take n s)"
  by (auto simp: prefix_def)

lemma render_page_start:
  "render_page rt md = py ''[Start of page]'' @ 10 # sub_images (10 # join [10, 10] (kept_lines rt (splitlines md)) @ [10, 10] @ py ''[End of page]'')"
proof -
  have "sub_images (py ''[Start of page]'') = py ''[Start of page]''"
    by (rule sub_images_plain) (simp add: py_def)
  then show ?thesis
    unfolding render_page_def Let_def
    using sub_images_line [of "py ''[Start of page]''"] by simp
qed

lemma render_page_end:
  "render_page rt md = sub_images (py ''[Start of page]'' @ [10, 10] @ join [10, 10] (kept_lines rt (splitlines md)) @ [10]) @ 10 # py ''[End of page]''"
proof -
  have "sub_images (py ''[End of page]'') = py ''[End of page]''"
    by (rule sub_images_plain) (simp add: py_def)
  then show ?thesis
    unfolding render_page_def Let_def
    using sub_images_line [of "py ''[Start of page]'' @ [10, 10] @ join [10, 10] (kept_lines rt (splitlines md)) @ [10]" "py ''[End of page]''"] by simp
qed

text \<open>
  Claim C5. When \<open>get_text\<close> returns a string, the string has at most 8192 characters
  and begins with \<open>[Start of page]\<close>; it is the first 8192 characters of the rendered
  page, which begins with \<open>[Start of page]\<close> and ends with \<open>[End of page]\<close>.
\<close>

theorem get_text_envelope:
  assumes "get_text rt converted = Inr (Some result)"
  shows "length result \<le> 8192 \<and> startswith result (py ''[Start of page]'')
    \<and> (\<exists>markdown_text. converted = Inr markdown_text
          \<and> result = take 8192 (render_page rt markdown_text)
          \<and> startswith (render_page rt markdown_text) (py ''[Start of page]'')
          \<and> endswith (render_page rt markdown_text) (py ''[End of page]''))"
proof -
  from assms obtain md where md: "converted = Inr md"
    and result: "result = take 8192 (render_page rt md)"
    by (auto simp: get_text_def split: sum.splits if_splits)
  have len: "length result \<le> 8192" using result by simp
  have s: "startswith (render_page rt md) (py ''[Start of page]'')"
    unfolding startswith_def by (subst render_page_start) simp
  have "length (py ''[Start of page]'') \<le> 8192" by (simp add: py_def)
  then have "startswith result (py ''[Start of page]'')"
    using s unfolding startswith_def result by (rule prefix_take)
  moreover have "endswith (render_page rt md) (py ''[End of page]'')"
    unfolding endswith_def by (subst render_page_end) (simp add: suffix_def)
  ultimately show ?thesis using md result len s by blast
qed

theorem get_text_envelope_witness:
  "get_text ascii_runtime (Inr (py ''Price: 42'')) = Inr (Some (py ''[Start of page]'' @ [10, 10] @ py ''Price: 42'' @ [10, 10] @ py ''[End of page]''))
   \<and> length (py ''[Start of page]'' @ [10, 10] @ py ''Price: 42'' @ [10, 10] @ py ''[End of page]'') \<le> 8192
   \<and> startswith (py ''[Start of page]'' @ [10, 10] @ py ''Price: 42'' @ [10, 10] @ py ''[End of page]'') (py ''[Start of page]'')"
proof -
  have h: "get_text ascii_runtime (Inr (py ''Price: 42'')) = Inr (Some (py ''[Start of page]'' @ [10, 10] @ py ''Price: 42'' @ [10, 10] @ py ''[End of page]''))"
    by (simp add: get_text_def render_page_def splitlines_def is_linebreak_def py_def
        strip_def isspace_def is_sentence_def isdigit_def ascii_isdigit_def split_ws_def)
  from get_text_envelope [OF h] h show ?thesis by blast
qed


section \<open>Properties of the navigation\<close>





section \<open>Properties of the button operations\<close>

lemma click_element_no_exception: "click_element d x = Inl e \<Longrightarrow> \<not> is_Exception e"
  by (auto simp: click_element_def and_then_def split: sum.splits if_splits)

lemma click_element_wait_fails:
  "d_clickable d 10 x = Inl e \<Longrightarrow> is_Exception e \<Longrightarrow> click_element d x = Inr False"
  by (simp add: click_element_def and_then_def)

lemma click_element_True_iff:
  "click_element d x = Inr True
     \<longleftrightarrow> d_clickable d 10 x = Inr () \<and> d_is_displayed d x = Inr True
         \<and> d_is_enabled d x = Inr True \<and> d_scroll_into_view d x = Inr ()
         \<and> d_click d x = Inr ()"
  by (auto simp: click_element_def and_then_def split: sum.splits if_splits)

lemma find_and_click_btn_True_iff:
  "find_and_click_btn rt d kind t = Inr True
     \<longleftrightarrow> (\<exists>entries matched xp. get_buttons_xpath rt d = Inr entries
           \<and> find (label_matches rt kind) entries = Some (matched, xp)
           \<and> d_clickable d t xp = Inr () \<and> click_element d xp = Inr True)"
proof
  assume "find_and_click_btn rt d kind t = Inr True"
  then show "\<exists>entries matched xp. get_buttons_xpath rt d = Inr entries
           \<and> find (label_matches rt kind) entries = Some (matched, xp)
           \<and> d_clickable d t xp = Inr () \<and> click_element d xp = Inr True"
    by (auto simp: find_and_click_btn_def and_then_def
        split: sum.splits if_splits option.splits prod.splits)
next
  assume "\<exists>entries matched xp. get_buttons_xpath rt d = Inr entries
           \<and> find (label_matches rt kind) entries = Some (matched, xp)
           \<and> d_clickable d t xp = Inr () \<and> click_element d xp = Inr True"
  then obtain entries matched xp where e: "get_buttons_xpath rt d = Inr entries"
    "find (label_matches rt kind) entries = Some (matched, xp)"
    "d_clickable d t xp = Inr ()" "click_element d xp = Inr True"
    by blast
  from e(2) have "entries \<noteq> []" by auto
  with e show "find_and_click_btn rt d kind t = Inr True"
    by (simp add: find_and_click_btn_def and_then_def)
qed

text \<open>
  Claim C6, as the code has it. \<open>click_element\<close> returns \<open>False\<close> when the wait for
  clickability times out, when the target is not displayed, when it is not enabled
  and when the click is intercepted, and equally on every other \<open>Exception\<close> the
  wait, the checks for displayed and enabled, the scroll or the click raises: it
  raises no \<open>Exception\<close> at all, and it returns \<open>True\<close> exactly when the wait,
  both checks, the scroll and the click all succeed.
  \<open>find_and_click_btn\<close> returns \<open>False\<close> when its own wait for the matching button
  raises an \<open>Exception\<close> and when \<open>click_element\<close> returns \<open>False\<close>, and \<open>True\<close>
  exactly when a label matches, its wait succeeds and \<open>click_element\<close> returns
  \<open>True\<close>; the only \<open>Exception\<close> it lets through is one raised while the buttons
  are listed, and that one it does let through.
\<close>

theorem click_failures_return_false:
  "(d_clickable d 10 x = Inl e \<and> is_Exception e \<longrightarrow> click_element d x = Inr False)
   \<and> (d_clickable d 10 x = Inr u \<and> d_is_displayed d x = Inr False
        \<longrightarrow> click_element d x = Inr False)
   \<and> (d_clickable d 10 x = Inr u \<and> d_is_displayed d x = Inr True
        \<and> d_is_enabled d x = Inr False \<longrightarrow> click_element d x = Inr False)
   \<and> (d_clickable d 10 x = Inr u \<and> d_is_displayed d x = Inr True
        \<and> d_is_enabled d x = Inr True \<and> d_scroll_into_view d x = Inr v
        \<and> d_click d x = Inl e \<longrightarrow> click_element d x = Inr False)
   \<and> (click_element d x = Inl e \<longrightarrow> \<not> is_Exception e)
   \<and> (get_buttons_xpath rt d = Inr bs
        \<and> find (label_matches rt kind) bs = Some (label, x)
        \<and> d_clickable d t x = Inl e \<and> is_Exception e
        \<longrightarrow> find_and_click_btn rt d kind t = Inr False)
   \<and> (get_buttons_xpath rt d = Inr bs
        \<and> find (label_matches rt kind) bs = Some (label, x)
        \<and> d_clickable d t x = Inr u \<and> click_element d x = Inr False
        \<longrightarrow> find_and_click_btn rt d kind t = Inr False)
   \<and> (find_and_click_btn rt d kind t = Inl e
        \<longrightarrow> get_buttons_xpath rt d = Inl e \<or> \<not> is_Exception e)
   \<and> (d_clickable d 10 x = Inr u \<and> d_is_displayed d x = Inl e \<and> is_Exception e
        \<longrightarrow> click_element d x = Inr False)
   \<and> (d_clickable d 10 x = Inr u \<and> d_is_displayed d x = Inr True
        \<and> d_is_enabled d x = Inl e \<and> is_Exception e \<longrightarrow> click_element d x = Inr False)
   \<and> (d_clickable d 10 x = Inr u \<and> d_is_displayed d x = Inr True
        \<and> d_is_enabled d x = Inr True \<and> d_scroll_into_view d x = Inl e
        \<longrightarrow> click_element d x = Inr False)
   \<and> (click_element d x = Inr True
        \<longleftrightarrow> d_clickable d 10 x = Inr () \<and> d_is_displayed d x = Inr True
            \<and> d_is_enabled d x = Inr True \<and> d_scroll_into_view d x = Inr ()
            \<and> d_click d x = Inr ())
   \<and> (find_and_click_btn rt d kind t = Inr True
        \<longleftrightarrow> (\<exists>entries matched xp. get_buttons_xpath rt d = Inr entries
              \<and> find (label_matches rt kind) entries = Some (matched, xp)
              \<and> d_clickable d t xp = Inr () \<and> click_element d xp = Inr True))
   \<and> (get_buttons_xpath rt d = Inl e \<longrightarrow> find_and_click_btn rt d kind t = Inl e)"
proof -
  have a: "click_element d x = Inr False" if "d_clickable d 10 x = Inl e" "is_Exception e"
    using that by (rule click_element_wait_fails)
  have b: "click_element d x = Inr False"
    if "d_clickable d 10 x = Inr u" "d_is_displayed d x = Inr False"
    using that by (simp add: click_element_def and_then_def)
  have c: "click_element d x = Inr False"
    if "d_clickable d 10 x = Inr u" "d_is_displayed d x = Inr True" "d_is_enabled d x = Inr False"
    using that by (simp add: click_element_def and_then_def)
  have i: "click_element d x = Inr False"
    if "d_clickable d 10 x = Inr u" "d_is_displayed d x = Inr True" "d_is_enabled d x = Inr True"
      "d_scroll_into_view d x = Inr v" "d_click d x = Inl e"
    using that by (simp add: click_element_def and_then_def)
  have n: "\<not> is_Exception e" if "click_element d x = Inl e"
    using that by (rule click_element_no_exception)
  have f: "find_and_click_btn rt d kind t = Inr False"
    if "get_buttons_xpath rt d = Inr bs" "find (label_matches rt kind) bs = Some (label, x)"
      "d_clickable d t x = Inl e" "is_Exception e"
  proof -
    from that(2) have "bs \<noteq> []" by auto
    with that show ?thesis by (simp add: find_and_click_btn_def and_then_def)
  qed
  have g: "find_and_click_btn rt d kind t = Inr False"
    if "get_buttons_xpath rt d = Inr bs" "find (label_matches rt kind) bs = Some (label, x)"
      "d_clickable d t x = Inr u" "click_element d x = Inr False"
  proof -
    from that(2) have "bs \<noteq> []" by auto
    with that show ?thesis by (simp add: find_and_click_btn_def and_then_def)
  qed
  have p: "get_buttons_xpath rt d = Inl e \<or> \<not> is_Exception e"
    if "find_and_click_btn rt d kind t = Inl e"
    using that
    by (auto simp: find_and_click_btn_def and_then_def
        split: sum.splits if_splits option.splits prod.splits)
  have dr: "click_element d x = Inr False"
    if "d_clickable d 10 x = Inr u" "d_is_displayed d x = Inl e" "is_Exception e"
    using that by (simp add: click_element_def and_then_def)
  have er: "click_element d x = Inr False"
    if "d_clickable d 10 x = Inr u" "d_is_displayed d x = Inr True" "d_is_enabled d x = Inl e"
      "is_Exception e"
    using that by (simp add: click_element_def and_then_def)
  have sr: "click_element d x = Inr False"
    if "d_clickable d 10 x = Inr u" "d_is_displayed d x = Inr True" "d_is_enabled d x = Inr True"
      "d_scroll_into_view d x = Inl e"
    using that by (simp add: click_element_def and_then_def)
  have ok: "click_element d x = Inr True
        \<longleftrightarrow> d_clickable d 10 x = Inr () \<and> d_is_displayed d x = Inr True
            \<and> d_is_enabled d x = Inr True \<and> d_scroll_into_view d x = Inr ()
            \<and> d_click d x = Inr ()"
    by (rule click_element_True_iff)
  have fk: "find_and_click_btn rt d kind t = Inr True
        \<longleftrightarrow> (\<exists>entries matched xp. get_buttons_xpath rt d = Inr entries
              \<and> find (label_matches rt kind) entries = Some (matched, xp)
              \<and> d_clickable d t xp = Inr () \<and> click_element d xp = Inr True)"
    by (rule find_and_click_btn_True_iff)
  have lr: "find_and_click_btn rt d kind t = Inl e" if "get_buttons_xpath rt d = Inl e"
    using that by (simp add: find_and_click_btn_def and_then_def)
  have c1: "d_clickable d 10 x = Inl e \<and> is_Exception e \<longrightarrow> click_element d x = Inr False"
    using a by blast
  have c2: "d_clickable d 10 x = Inr u \<and> d_is_displayed d x = Inr False
        \<longrightarrow> click_element d x = Inr False"
    using b by blast
  have c3: "d_clickable d 10 x = Inr u \<and> d_is_displayed d x = Inr True
        \<and> d_is_enabled d x = Inr False \<longrightarrow> click_element d x = Inr False"
    using c by blast
  have c4: "d_clickable d 10 x = Inr u \<and> d_is_displayed d x = Inr True
        \<and> d_is_enabled d x = Inr True \<and> d_scroll_into_view d x = Inr v
        \<and> d_click d x = Inl e \<longrightarrow> click_element d x = Inr False"
    using i by blast
  have c5: "click_element d x = Inl e \<longrightarrow> \<not> is_Exception e"
    using n by blast
  have c6: "get_buttons_xpath rt d = Inr bs
        \<and> find (label_matches rt kind) bs = Some (label, x)
        \<and> d_clickable d t x = Inl e \<and> is_Exception e
        \<longrightarrow> find_and_click_btn rt d kind t = Inr False"
    using f by blast
  have c7: "get_buttons_xpath rt d = Inr bs
        \<and> find (label_matches rt kind) bs = Some (label, x)
        \<and> d_clickable d t x = Inr u \<and> click_element d x = Inr False
        \<longrightarrow> find_and_click_btn rt d kind t = Inr False"
    using g by blast
  have c8: "find_and_click_btn rt d kind t = Inl e
        \<longrightarrow> get_buttons_xpath rt d = Inl e \<or> \<not> is_Exception e"
    using p by blast
  have c9: "d_clickable d 10 x = Inr u \<and> d_is_displayed d x = Inl e \<and> is_Exception e
        \<longrightarrow> click_element d x = Inr False"
    using dr by blast
  have c10: "d_clickable d 10 x = Inr u \<and> d_is_displayed d x = Inr True
        \<and> d_is_enabled d x = Inl e \<and> is_Exception e \<longrightarrow> click_element d x = Inr False"
    using er by blast
  have c11: "d_clickable d 10 x = Inr u \<and> d_is_displayed d x = Inr True
        \<and> d_is_enabled d x = Inr True \<and> d_scroll_into_view d x = Inl e
        \<longrightarrow> click_element d x = Inr False"
    using sr by blast
  have c14: "get_buttons_xpath rt d = Inl e \<longrightarrow> find_and_click_btn rt d kind t = Inl e"
    using lr by blast
  show ?thesis
    by (intro conjI; fact c1 c2 c3 c4 c5 c6 c7 c8 c9 c10 c11 ok fk c14)
qed

theorem click_failures_return_false_witness:
  "click_element intercepted_driver (button_xpath 0) = Inr False"
  using click_failures_return_false [where d = intercepted_driver and x = "button_xpath 0"
        and e = ElementClickInterceptedException and u = "()" and v = "()"]
  by (simp add: intercepted_driver_def page_driver_def)

text \<open>
  The claim as stated fails: an unexpected error of the driver (a
  \<open>WebDriverException\<close> that is no timeout) raised by the wait does not reach the
  caller of \<open>click_element\<close>, which returns \<open>False\<close>.
\<close>

theorem click_element_swallows_driver_error:
  "d_clickable broken_driver 10 (button_xpath 0) = Inl WebDriverException
   \<and> click_element broken_driver (button_xpath 0) = Inr False
   \<and> click_element broken_driver (button_xpath 0) \<noteq> Inl WebDriverException"
  by (simp add: broken_driver_def page_driver_def click_element_def and_then_def)


subsection \<open>The submission vocabulary\<close>

lemma try_submissions_skip_failed:
  "find_and_click_btn rt d s t = Inr False \<Longrightarrow>
   try_submissions rt d t (xs @ s # ys) = try_submissions rt d t (xs @ ys)"
  by (induction xs) (auto simp: and_then_def split: sum.splits)

lemma try_submissions_stops:
  "s \<in> set xs \<Longrightarrow> find_and_click_btn rt d s t \<noteq> Inr False \<Longrightarrow>
   try_submissions rt d t (xs @ zs) = try_submissions rt d t xs"
proof (induction xs)
  case Nil
  then show ?case by simp
next
  case (Cons x xs)
  show ?case
  proof (cases "find_and_click_btn rt d x t")
    case (Inl e)
    then show ?thesis by (simp add: and_then_def)
  next
    case (Inr clicked)
    show ?thesis
    proof (cases clicked)
      case True
      with Inr show ?thesis by (simp add: and_then_def)
    next
      case False
      with Inr Cons.prems have "s \<in> set xs" by auto
      with Cons.IH Cons.prems(2) Inr False show ?thesis by (simp add: and_then_def)
    qed
  qed
qed

lemma try_submissions_retry:
  assumes "s \<in> set xs"
  shows "try_submissions rt d t (xs @ s # ys) = try_submissions rt d t (xs @ ys)"
proof (cases "find_and_click_btn rt d s t = Inr False")
  case True
  then show ?thesis by (rule try_submissions_skip_failed)
next
  case False
  with assms show ?thesis by (simp add: try_submissions_stops)
qed

lemma try_submissions_dedup:
  "try_submissions rt d t (tried @ xs) = try_submissions rt d t (tried @ dedup_after tried xs)"
proof (induction xs arbitrary: tried)
  case Nil
  then show ?case by simp
next
  case (Cons x xs)
  show ?case
  proof (cases "x \<in> set tried")
    case True
    then show ?thesis using Cons.IH [of tried] by (simp add: try_submissions_retry)
  next
    case False
    then show ?thesis using Cons.IH [of "tried @ [x]"] by simp
  qed
qed

lemma possible_submissions_dedup: "dedup_after [] possible_submissions = submission_vocabulary"
  by (simp add: possible_submissions_def submission_vocabulary_def py_def)

lemma try_submissions_all_fail:
  "list_all (\<lambda>s. find_and_click_btn rt d s t = Inr False) xs \<Longrightarrow>
   try_submissions rt d t xs = Inr False"
  by (induction xs) (auto simp: and_then_def split: sum.splits)

lemma try_submissions_first_success:
  "list_all (\<lambda>s. find_and_click_btn rt d s t = Inr False) xs \<Longrightarrow>
   find_and_click_btn rt d s t = Inr True \<Longrightarrow>
   try_submissions rt d t (xs @ s # ys) = Inr True"
  by (induction xs) (auto simp: and_then_def split: sum.splits)

lemma register_now_buttons:
  "d_buttons d = Inr [\<lparr>b_text = py ''Register Now'', b_value = v, b_displayed = True, b_enabled = True\<rparr>]
   \<Longrightarrow> d_submit_inputs d = Inr []
   \<Longrightarrow> get_buttons_xpath rt d = Inr [(py ''registernow'', button_xpath 0)]"
  by (simp add: get_buttons_xpath_def and_then_def button_label_def lower_def py_def
      ascii_lower_def remove_spaces_def)


lemma click_element_succeeds:
  "d_clickable d 10 x = Inr u \<Longrightarrow> d_is_displayed d x = Inr True \<Longrightarrow> d_is_enabled d x = Inr True
   \<Longrightarrow> d_scroll_into_view d x = Inr v \<Longrightarrow> d_click d x = Inr w \<Longrightarrow> click_element d x = Inr True"
  by (simp add: click_element_def and_then_def)

lemma possible_submissions_attempts:
  "possible_submissions
     = take 4 submission_vocabulary @ submission_vocabulary @ [py ''calculate'']"
  by (simp add: possible_submissions_def submission_vocabulary_def)

lemma find_and_click_btn_listing_raises:
  "get_buttons_xpath rt d = Inl e \<Longrightarrow> find_and_click_btn rt d kind t = Inl e"
  by (simp add: find_and_click_btn_def and_then_def)

lemma find_and_click_btn_raised:
  "find_and_click_btn rt d kind t = Inl e \<Longrightarrow>
   get_buttons_xpath rt d = Inl e \<or> \<not> is_Exception e"
  by (auto simp: find_and_click_btn_def and_then_def
      split: sum.splits if_splits option.splits prod.splits)

lemma try_submissions_raised:
  "try_submissions rt d t xs = Inl e \<Longrightarrow>
   list_ex (\<lambda>s. find_and_click_btn rt d s t = Inl e) xs"
  by (induction xs) (auto simp: and_then_def split: sum.splits if_splits)

text \<open>
  Claim C9, as the code has it. \<open>find_and_click_submission\<close> tries, through
  \<open>find_and_click_btn\<close>, the labels login, submit, register, calculate, save, send,
  continue, apply, ok, confirm, next, proceed, accept, agree, yes, no, cancel, close,
  done, finish, start in this order: its list holds the first four of them, then all
  of them, then calculate once more, and on a page that does not change between the
  attempts the repeated attempts change nothing. It returns \<open>True\<close> at the first
  label whose click succeeds and \<open>False\<close> when every attempt returns \<open>False\<close>, as on
  a page whose buttons can be listed and none of whose labels contains a label of the
  vocabulary. It has no handler of its own: an exception raised while the buttons are
  listed reaches the caller, and when the buttons can be listed no \<open>Exception\<close> is
  raised. On a page whose only button is labelled \<open>Register Now\<close>, \<open>login\<close> and
  \<open>submit\<close> do not match, \<open>register\<close> does, and the result is \<open>True\<close>.
\<close>

theorem find_and_click_submission_attempts:
  "find_and_click_submission rt d t
     = try_submissions rt d t
         (take 4 submission_vocabulary @ submission_vocabulary @ [py ''calculate''])
   \<and> find_and_click_submission rt d t = try_submissions rt d t submission_vocabulary
   \<and> (list_all (\<lambda>s. find_and_click_btn rt d s t = Inr False) submission_vocabulary
        \<longrightarrow> find_and_click_submission rt d t = Inr False)
   \<and> (get_buttons_xpath rt d = Inr entries
        \<and> list_all (\<lambda>s. find (label_matches rt s) entries = None) submission_vocabulary
        \<longrightarrow> find_and_click_submission rt d t = Inr False)
   \<and> (submission_vocabulary = failed @ s # later
        \<and> list_all (\<lambda>s. find_and_click_btn rt d s t = Inr False) failed
        \<and> find_and_click_btn rt d s t = Inr True
        \<longrightarrow> find_and_click_submission rt d t = Inr True)
   \<and> (get_buttons_xpath rt d = Inl e \<longrightarrow> find_and_click_submission rt d t = Inl e)
   \<and> (get_buttons_xpath rt d = Inr entries \<and> find_and_click_submission rt d t = Inl e
        \<longrightarrow> \<not> is_Exception e)
   \<and> (d_buttons d = Inr [\<lparr>b_text = py ''Register Now'', b_value = v, b_displayed = True,
                           b_enabled = True\<rparr>]
        \<and> d_submit_inputs d = Inr []
        \<and> d_clickable d t (button_xpath 0) = Inr () \<and> d_clickable d 10 (button_xpath 0) = Inr ()
        \<and> d_is_displayed d (button_xpath 0) = Inr True
        \<and> d_is_enabled d (button_xpath 0) = Inr True
        \<and> d_scroll_into_view d (button_xpath 0) = Inr ()
        \<and> d_click d (button_xpath 0) = Inr ()
        \<longrightarrow> find_and_click_btn rt d (py ''login'') t = Inr False
            \<and> find_and_click_btn rt d (py ''submit'') t = Inr False
            \<and> find_and_click_btn rt d (py ''register'') t = Inr True
            \<and> find_and_click_submission rt d t = Inr True)"
proof -
  have attempts: "find_and_click_submission rt d t
     = try_submissions rt d t
         (take 4 submission_vocabulary @ submission_vocabulary @ [py ''calculate''])"
    by (simp only: find_and_click_submission_def possible_submissions_attempts)
  have vocab: "find_and_click_submission rt d t = try_submissions rt d t submission_vocabulary"
    using try_submissions_dedup [of rt d t "[]" possible_submissions]
    by (simp add: find_and_click_submission_def possible_submissions_dedup)
  have none: "find_and_click_submission rt d t = Inr False"
    if "list_all (\<lambda>s. find_and_click_btn rt d s t = Inr False) submission_vocabulary"
    using that vocab by (simp add: try_submissions_all_fail)
  have unknown: "find_and_click_submission rt d t = Inr False"
    if e: "get_buttons_xpath rt d = Inr entries"
      and n: "list_all (\<lambda>s. find (label_matches rt s) entries = None) submission_vocabulary"
  proof -
    have "find_and_click_btn rt d s t = Inr False" if "find (label_matches rt s) entries = None" for s
      using that e by (simp add: find_and_click_btn_def and_then_def)
    with n have "list_all (\<lambda>s. find_and_click_btn rt d s t = Inr False) submission_vocabulary"
      unfolding list_all_iff by blast
    then show ?thesis by (rule none)
  qed
  have first: "find_and_click_submission rt d t = Inr True"
    if "submission_vocabulary = failed @ s # later"
      "list_all (\<lambda>s. find_and_click_btn rt d s t = Inr False) failed"
      "find_and_click_btn rt d s t = Inr True"
    using try_submissions_first_success [OF that(2,3), of later] vocab that(1) by simp
  have listing: "find_and_click_submission rt d t = Inl e" if "get_buttons_xpath rt d = Inl e"
  proof -
    have "find_and_click_btn rt d (py ''login'') t = Inl e"
      using that by (rule find_and_click_btn_listing_raises)
    then show ?thesis
      by (simp add: find_and_click_submission_def possible_submissions_def and_then_def)
  qed
  have raised: "\<not> is_Exception e"
    if l: "get_buttons_xpath rt d = Inr entries" and r: "find_and_click_submission rt d t = Inl e"
  proof -
    from r have "list_ex (\<lambda>s. find_and_click_btn rt d s t = Inl e) possible_submissions"
      unfolding find_and_click_submission_def by (rule try_submissions_raised)
    then obtain s where "find_and_click_btn rt d s t = Inl e"
      unfolding list_ex_iff by blast
    then have "get_buttons_xpath rt d = Inl e \<or> \<not> is_Exception e"
      by (rule find_and_click_btn_raised)
    with l show ?thesis by simp
  qed
  have register: "find_and_click_btn rt d (py ''login'') t = Inr False
      \<and> find_and_click_btn rt d (py ''submit'') t = Inr False
      \<and> find_and_click_btn rt d (py ''register'') t = Inr True
      \<and> find_and_click_submission rt d t = Inr True"
    if b: "d_buttons d = Inr [\<lparr>b_text = py ''Register Now'', b_value = v, b_displayed = True,
                           b_enabled = True\<rparr>]" "d_submit_inputs d = Inr []"
      and w: "d_clickable d t (button_xpath 0) = Inr ()"
      and c: "d_clickable d 10 (button_xpath 0) = Inr ()"
        "d_is_displayed d (button_xpath 0) = Inr True"
        "d_is_enabled d (button_xpath 0) = Inr True"
        "d_scroll_into_view d (button_xpath 0) = Inr ()"
        "d_click d (button_xpath 0) = Inr ()"
  proof -
    have bs: "get_buttons_xpath rt d = Inr [(py ''registernow'', button_xpath 0)]"
      using b by (rule register_now_buttons)
    have click: "click_element d (button_xpath 0) = Inr True"
      using c by (rule click_element_succeeds)
    note ev = find_and_click_btn_def and_then_def label_matches_def contains_def lower_def
      py_def ascii_lower_def sublist_code
    have l: "find_and_click_btn rt d (py ''login'') t = Inr False"
      unfolding find_and_click_btn_def bs by (simp add: ev)
    have s: "find_and_click_btn rt d (py ''submit'') t = Inr False"
      unfolding find_and_click_btn_def bs by (simp add: ev)
    have r: "find_and_click_btn rt d (py ''register'') t = Inr True"
      unfolding find_and_click_btn_def bs using w click by (simp add: ev)
    have "try_submissions rt d t submission_vocabulary = Inr True"
      using l s r by (simp add: submission_vocabulary_def and_then_def)
    with vocab l s r show ?thesis by simp
  qed
  have c3: "list_all (\<lambda>s. find_and_click_btn rt d s t = Inr False) submission_vocabulary
        \<longrightarrow> find_and_click_submission rt d t = Inr False"
    using none by blast
  have c4: "get_buttons_xpath rt d = Inr entries
        \<and> list_all (\<lambda>s. find (label_matches rt s) entries = None) submission_vocabulary
        \<longrightarrow> find_and_click_submission rt d t = Inr False"
    using unknown by blast
  have c5: "submission_vocabulary = failed @ s # later
        \<and> list_all (\<lambda>s. find_and_click_btn rt d s t = Inr False) failed
        \<and> find_and_click_btn rt d s t = Inr True
        \<longrightarrow> find_and_click_submission rt d t = Inr True"
    using first by blast
  have c6: "get_buttons_xpath rt d = Inl e \<longrightarrow> find_and_click_submission rt d t = Inl e"
    using listing by blast
  have c7: "get_buttons_xpath rt d = Inr entries \<and> find_and_click_submission rt d t = Inl e
        \<longrightarrow> \<not> is_Exception e"
    using raised by blast
  have c8: "d_buttons d = Inr [\<lparr>b_text = py ''Register Now'', b_value = v, b_displayed = True,
                           b_enabled = True\<rparr>]
        \<and> d_submit_inputs d = Inr []
        \<and> d_clickable d t (button_xpath 0) = Inr () \<and> d_clickable d 10 (button_xpath 0) = Inr ()
        \<and> d_is_displayed d (button_xpath 0) = Inr True
        \<and> d_is_enabled d (button_xpath 0) = Inr True
        \<and> d_scroll_into_view d (button_xpath 0) = Inr ()
        \<and> d_click d (button_xpath 0) = Inr ()
        \<longrightarrow> find_and_click_btn rt d (py ''login'') t = Inr False
            \<and> find_and_click_btn rt d (py ''submit'') t = Inr False
            \<and> find_and_click_btn rt d (py ''register'') t = Inr True
            \<and> find_and_click_submission rt d t = Inr True"
    using register by blast
  show ?thesis
    by (intro conjI; fact attempts vocab c3 c4 c5 c6 c7 c8)
qed

theorem find_and_click_submission_attempts_witness:
  "find_and_click_submission ascii_runtime (page_driver [button_named (py ''Register Now'')]) 10
     = Inr True
   \<and> find_and_click_btn ascii_runtime (page_driver [button_named (py ''Register Now'')])
       (py ''submit'') 10 = Inr False
   \<and> find_and_click_submission ascii_runtime (page_driver []) 10 = Inr False"
proof -
  let ?d = "page_driver [button_named (py ''Register Now'')]"
  have h: "d_buttons ?d = Inr [\<lparr>b_text = py ''Register Now'', b_value = None,
                                b_displayed = True, b_enabled = True\<rparr>]
      \<and> d_submit_inputs ?d = Inr []
      \<and> d_clickable ?d 10 (button_xpath 0) = Inr ()
      \<and> d_is_displayed ?d (button_xpath 0) = Inr True
      \<and> d_is_enabled ?d (button_xpath 0) = Inr True
      \<and> d_scroll_into_view ?d (button_xpath 0) = Inr ()
      \<and> d_click ?d (button_xpath 0) = Inr ()"
    by (simp add: page_driver_def button_named_def)
  note th1 = find_and_click_submission_attempts
      [where rt = ascii_runtime and d = ?d and t = 10 and v = None and failed = "[]"
         and s = "[]" and later = "[]" and entries = "[]" and e = ValueError]
  have a: "find_and_click_btn ascii_runtime ?d (py ''submit'') 10 = Inr False
     \<and> find_and_click_submission ascii_runtime ?d 10 = Inr True"
    using th1 h by blast
  have "find_and_click_btn ascii_runtime (page_driver []) s 10 = Inr False" for s
    by (simp add: find_and_click_btn_def get_buttons_xpath_def page_driver_def and_then_def)
  then have l: "list_all (\<lambda>s. find_and_click_btn ascii_runtime (page_driver []) s 10 = Inr False)
      submission_vocabulary"
    by (simp add: list_all_iff)
  note th2 = find_and_click_submission_attempts
      [where rt = ascii_runtime and d = "page_driver []" and t = 10 and v = None
         and failed = "[]" and s = "[]" and later = "[]" and entries = "[]" and e = ValueError]
  have b: "find_and_click_submission ascii_runtime (page_driver []) 10 = Inr False"
    using th2 l by blast
  from a b show ?thesis by blast
qed

text \<open>
  The claim as stated fails: when the buttons cannot be listed no label yields a
  click, and \<open>find_and_click_submission\<close> raises the driver's error where the claim
  has it return \<open>False\<close> without raising.
\<close>

theorem find_and_click_submission_raises:
  "get_buttons_xpath ascii_runtime unlisted_driver = Inl WebDriverException
   \<and> find_and_click_btn ascii_runtime unlisted_driver (py ''login'') 10 = Inl WebDriverException
   \<and> find_and_click_submission ascii_runtime unlisted_driver 10 = Inl WebDriverException
   \<and> find_and_click_submission ascii_runtime unlisted_driver 10 \<noteq> Inr False"
  by (simp add: unlisted_driver_def page_driver_def get_buttons_xpath_def
      find_and_click_btn_def find_and_click_submission_def possible_submissions_def
      and_then_def)


subsection \<open>Labels and kinds\<close>









section \<open>Properties of the form filling\<close>

lemma input_type_click [simp]: "input_type rt (element_click rt el) = input_type rt el"
  by (simp add: element_click_def input_type_def)

lemma fill_input_again: "fill_input rt inputs pg s = Inr pg' \<Longrightarrow> fill_input rt inputs pg' s = Inr pg'"
proof -
  assume a: "fill_input rt inputs pg s = Inr pg'"
  show ?thesis
  proof (cases "match_bracket_pair s")
    case None
    with a show ?thesis by (simp add: fill_input_def)
  next
    case (Some r)
    obtain g1 g2 n where r: "r = (g1, g2, n)" by (cases r)
    show ?thesis
    proof (cases "find_input_xpath_by_name inputs (strip g1)")
      case None
      with a Some r show ?thesis by (simp add: fill_input_def)
    next
      case x: (Some x)
      show ?thesis
      proof (cases "x = []")
        case True
        with a Some r x show ?thesis by (simp add: fill_input_def)
      next
        case False
        show ?thesis
        proof (cases "pg x")
          case None
          with a Some r x False show ?thesis by (simp add: fill_input_def)
        next
          case el: (Some el)
          from a Some r x False el show ?thesis
            by (auto simp: fill_input_def Let_def element_click_def element_clear_def
                element_send_keys_def input_type_def split: if_splits)
        qed
      qed
    qed
  qed
qed

lemma fill_loop_single:
  "fill_loop rt inputs pg [s] =
     (case fill_input rt inputs pg s of
        Inl e \<Rightarrow> (if is_Exception e then Inr False else Inl e, pg)
      | Inr pg' \<Rightarrow> (Inr True, pg'))"
  by (simp split: sum.splits)

lemma email_command:
  "match_bracket_pair (py ''[email](a@b.com)'') = Some (py ''email'', py ''a@b.com'', 16)"
  by (simp add: match_bracket_pair_def py_def startswith_def)

text \<open>
  Claim C8. \<open>fill_form_inputs\<close> is idempotent per command: filling with a command
  and filling again with the same command gives the same result and leaves the page
  as the first filling left it. For a checkbox or radio button it clicks only when
  the checked state differs from what the value asks for (\<open>checked\<close>, or anything
  else for unchecked). For a text control it clears the field and types the value,
  so the field then holds exactly the value: after \<open>[email](a@b.com)\<close> the field
  that the label \<open>email\<close> resolves to holds \<open>a@b.com\<close>.
\<close>

theorem fill_form_inputs_idempotent:
  "fill_form_inputs rt found (snd (fill_form_inputs rt found pg [cmd])) [cmd]
     = fill_form_inputs rt found pg [cmd]
   \<and> (found = Inr inputs \<and> match_bracket_pair cmd = Some (g1, g2, n)
        \<and> find_input_xpath_by_name inputs (strip g1) = Some x \<and> x \<noteq> [] \<and> pg x = Some el
        \<and> (input_type rt el = py ''checkbox'' \<or> input_type rt el = py ''radio'')
        \<longrightarrow> fill_form_inputs rt found pg [cmd]
            = (Inr True,
               if e_selected el = (lower rt (strip g2) = py ''checked'') then pg
               else pg(x \<mapsto> element_click rt el)))
   \<and> (found = Inr inputs \<and> match_bracket_pair cmd = Some (g1, g2, n)
        \<and> find_input_xpath_by_name inputs (strip g1) = Some x \<and> x \<noteq> [] \<and> pg x = Some el
        \<and> input_type rt el \<noteq> py ''checkbox'' \<and> input_type rt el \<noteq> py ''radio''
        \<longrightarrow> fill_form_inputs rt found pg [cmd]
            = (Inr True, pg(x \<mapsto> el\<lparr>e_value := strip g2\<rparr>)))
   \<and> (found = Inr inputs
        \<and> find_input_xpath_by_name inputs (py ''email'') = Some x \<and> x \<noteq> [] \<and> pg x = Some el
        \<and> input_type rt el \<noteq> py ''checkbox'' \<and> input_type rt el \<noteq> py ''radio''
        \<longrightarrow> fill_form_inputs rt found pg [py ''[email](a@b.com)'']
            = (Inr True, pg(x \<mapsto> el\<lparr>e_value := py ''a@b.com''\<rparr>)))"
proof -
  have idem: "fill_form_inputs rt found (snd (fill_form_inputs rt found pg [cmd])) [cmd]
     = fill_form_inputs rt found pg [cmd]"
  proof (cases found)
    case (Inl e)
    then show ?thesis by (simp add: fill_form_inputs_def)
  next
    case (Inr inputs)
    show ?thesis
    proof (cases "fill_input rt inputs pg cmd")
      case (Inl e)
      with Inr show ?thesis by (simp add: fill_form_inputs_def)
    next
      case pg': (Inr pg')
      then have "fill_input rt inputs pg' cmd = Inr pg'" by (rule fill_input_again)
      with Inr pg' show ?thesis by (simp add: fill_form_inputs_def)
    qed
  qed
  have boolean: "fill_form_inputs rt found pg [cmd]
            = (Inr True,
               if e_selected el = (lower rt (strip g2) = py ''checked'') then pg
               else pg(x \<mapsto> element_click rt el))"
    if "found = Inr inputs" "match_bracket_pair cmd = Some (g1, g2, n)"
      "find_input_xpath_by_name inputs (strip g1) = Some x" "x \<noteq> []" "pg x = Some el"
      "input_type rt el = py ''checkbox'' \<or> input_type rt el = py ''radio''"
    using that by (auto simp: fill_form_inputs_def fill_input_def Let_def)
  have textual: "fill_form_inputs rt found pg [cmd]
            = (Inr True, pg(x \<mapsto> el\<lparr>e_value := strip g2\<rparr>))"
    if "found = Inr inputs" "match_bracket_pair cmd = Some (g1, g2, n)"
      "find_input_xpath_by_name inputs (strip g1) = Some x" "x \<noteq> []" "pg x = Some el"
      "input_type rt el \<noteq> py ''checkbox''" "input_type rt el \<noteq> py ''radio''"
      for cmd g1 g2 n
    using that
    by (simp add: fill_form_inputs_def fill_input_def Let_def element_clear_def
        element_send_keys_def)
  have email: "fill_form_inputs rt found pg [py ''[email](a@b.com)'']
            = (Inr True, pg(x \<mapsto> el\<lparr>e_value := py ''a@b.com''\<rparr>))"
    if "found = Inr inputs" "find_input_xpath_by_name inputs (py ''email'') = Some x" "x \<noteq> []"
      "pg x = Some el" "input_type rt el \<noteq> py ''checkbox''" "input_type rt el \<noteq> py ''radio''"
  proof -
    have s1: "strip (py ''email'') = py ''email''" and s2: "strip (py ''a@b.com'') = py ''a@b.com''"
      by (simp_all add: strip_def py_def isspace_def)
    from textual [OF that(1) email_command] that s1 s2 show ?thesis by simp
  qed
  from idem boolean textual email show ?thesis by blast
qed

theorem fill_form_inputs_idempotent_witness:
  "map_option e_value
     (snd (fill_form_inputs ascii_runtime (Inr email_inputs) email_page [py ''[email](a@b.com)''])
        (py ''//input[2]'')) = Some (py ''a@b.com'')
   \<and> fill_form_inputs ascii_runtime (Inr email_inputs)
       (snd (fill_form_inputs ascii_runtime (Inr email_inputs) email_page
          [py ''[email](a@b.com)''])) [py ''[email](a@b.com)'']
     = fill_form_inputs ascii_runtime (Inr email_inputs) email_page [py ''[email](a@b.com)'']"
proof -
  have f: "find_input_xpath_by_name email_inputs (py ''email'') = Some (py ''//input[2]'')"
    by (simp add: email_inputs_def contains_def py_def sublist_code)
  have p: "email_page (py ''//input[2]'')
      = Some \<lparr>e_type = Some (py ''email''), e_selected = False, e_value = py ''old@b.com''\<rparr>"
    by (simp add: email_page_def py_def)
  have t: "input_type ascii_runtime
      \<lparr>e_type = Some (py ''email''), e_selected = False, e_value = py ''old@b.com''\<rparr> = py ''email''"
    by (simp add: input_type_def lower_def py_def ascii_lower_def)
  have n: "py ''//input[2]'' \<noteq> []" "py ''email'' \<noteq> py ''checkbox''" "py ''email'' \<noteq> py ''radio''"
    by (simp_all add: py_def)
  note th = fill_form_inputs_idempotent [where rt = ascii_runtime and found = "Inr email_inputs"
      and inputs = email_inputs and pg = email_page and x = "py ''//input[2]''"
      and el = "\<lparr>e_type = Some (py ''email''), e_selected = False, e_value = py ''old@b.com''\<rparr>"
      and cmd = "py ''[email](a@b.com)''" and ?g1.0 = "[]" and ?g2.0 = "[]" and n = 0]
  from th f p t n have
    "fill_form_inputs ascii_runtime (Inr email_inputs) email_page [py ''[email](a@b.com)'']
       = (Inr True, email_page(py ''//input[2]'' \<mapsto>
           \<lparr>e_type = Some (py ''email''), e_selected = False, e_value = py ''old@b.com''\<rparr>
             \<lparr>e_value := py ''a@b.com''\<rparr>))"
    by simp
  then have a: "map_option e_value
     (snd (fill_form_inputs ascii_runtime (Inr email_inputs) email_page [py ''[email](a@b.com)''])
        (py ''//input[2]'')) = Some (py ''a@b.com'')"
    by simp
  from th have b: "fill_form_inputs ascii_runtime (Inr email_inputs)
       (snd (fill_form_inputs ascii_runtime (Inr email_inputs) email_page
          [py ''[email](a@b.com)''])) [py ''[email](a@b.com)'']
     = fill_form_inputs ascii_runtime (Inr email_inputs) email_page [py ''[email](a@b.com)'']"
    by blast
  from a b show ?thesis by blast
qed


section \<open>Properties of the navigable links\<close>

subsection \<open>\<open>urlparse\<close> reads scheme, host and path before the first \<open>#\<close> or \<open>?\<close>\<close>

lemma no_cut_subset: "set x \<subseteq> set b \<Longrightarrow> no_cut b \<Longrightarrow> no_cut x"
  by (auto simp: no_cut_def)

lemma dropWhile_append_stop:
  "(r \<noteq> [] \<Longrightarrow> \<not> P (hd r)) \<Longrightarrow> dropWhile P (b @ r) = dropWhile P b @ r"
  by (induction b) (cases r; simp)+

lemma takeWhile_append_stop:
  "(r \<noteq> [] \<Longrightarrow> \<not> P (hd r)) \<Longrightarrow> takeWhile P (b @ r) = takeWhile P b"
  by (induction b) (cases r; simp)+

lemma takeWhile_append_absent:
  "c \<notin> set b \<Longrightarrow> takeWhile (\<lambda>x. x \<noteq> c) (b @ r) = b @ takeWhile (\<lambda>x. x \<noteq> c) r"
  by (induction b) auto

lemma hd_split_once: "hd (split_once c s) = takeWhile (\<lambda>x. x \<noteq> c) s"
proof (cases "c \<in> set s")
  case True
  then obtain a b where "s = a @ c # b" "c \<notin> set a"
    by (meson split_list_first)
  then show ?thesis by (simp add: split_once_def dropWhile_at_sep takeWhile_at_sep)
next
  case False
  then show ?thesis by (simp add: split_once_def dropWhile_absent takeWhile_absent)
qed

lemma cut_tail_filter: "cut_tail r \<Longrightarrow> cut_tail (filter (\<lambda>c. \<not> is_unsafe_byte c) r)"
  by (cases r) (auto simp: cut_tail_def is_unsafe_byte_def)

lemma prepare_append:
  assumes "cut_tail r"
  shows "prepare (b @ r) = prepare b @ filter (\<lambda>c. \<not> is_unsafe_byte c) r"
proof -
  have "dropWhile is_c0_or_space (b @ r) = dropWhile is_c0_or_space b @ r"
    using assms by (intro dropWhile_append_stop) (auto simp: cut_tail_def is_c0_or_space_def)
  then show ?thesis by (simp add: prepare_def)
qed

lemma set_prepare: "set (prepare b) \<subseteq> set b"
  unfolding prepare_def by (auto dest: set_dropWhileD)

lemma split_scheme_subset: "set (snd (split_scheme b)) \<subseteq> set b"
  using set_tl_subset [of "dropWhile (\<lambda>c. c \<noteq> cp CHR '':'') b"]
    set_dropWhileD [of _ "\<lambda>c. c \<noteq> cp CHR '':''" b]
  by (auto simp: split_scheme_def Let_def)

lemma split_scheme_append:
  assumes b: "no_cut b" and r: "cut_tail r"
  shows "split_scheme (b @ r) = (fst (split_scheme b), snd (split_scheme b) @ r)"
proof (cases "cp CHR '':'' \<in> set b")
  case True
  then obtain a c where ac: "b = a @ cp CHR '':'' # c" "cp CHR '':'' \<notin> set a"
    by (meson split_list_first)
  have "takeWhile (\<lambda>x. x \<noteq> cp CHR '':'') (a @ cp CHR '':'' # c @ r) = a"
    "dropWhile (\<lambda>x. x \<noteq> cp CHR '':'') (a @ cp CHR '':'' # c @ r) = cp CHR '':'' # c @ r"
    "takeWhile (\<lambda>x. x \<noteq> cp CHR '':'') (a @ cp CHR '':'' # c) = a"
    "dropWhile (\<lambda>x. x \<noteq> cp CHR '':'') (a @ cp CHR '':'' # c) = cp CHR '':'' # c"
    using ac(2) by (simp_all add: takeWhile_at_sep dropWhile_at_sep)
  then show ?thesis
    unfolding split_scheme_def Let_def ac(1) by simp
next
  case False
  then have nb: "split_scheme b = ([], b)"
    by (simp add: split_scheme_def Let_def)
  have "split_scheme (b @ r) = ([], b @ r)"
  proof (cases "cp CHR '':'' \<in> set r")
    case False
    with \<open>cp CHR '':'' \<notin> set b\<close> show ?thesis by (simp add: split_scheme_def Let_def)
  next
    case True
    then have "r \<noteq> []" by auto
    with r have h: "hd r = cp CHR ''#'' \<or> hd r = cp CHR ''?''" by (simp add: cut_tail_def)
    then have "hd r \<noteq> cp CHR '':''" by auto
    with \<open>r \<noteq> []\<close> have "hd r \<in> set (takeWhile (\<lambda>x. x \<noteq> cp CHR '':'') r)"
      by (cases r) auto
    moreover have "\<not> is_scheme_char (hd r)"
      using h by (auto simp: is_scheme_char_def ascii_isalpha_def ascii_isdigit_def)
    ultimately have "\<not> list_all is_scheme_char (takeWhile (\<lambda>x. x \<noteq> cp CHR '':'') r)"
      by (auto simp: list_all_iff)
    moreover have "takeWhile (\<lambda>x. x \<noteq> cp CHR '':'') (b @ r) = b @ takeWhile (\<lambda>x. x \<noteq> cp CHR '':'') r"
      using False by (rule takeWhile_append_absent)
    ultimately show ?thesis by (simp add: split_scheme_def Let_def)
  qed
  with nb show ?thesis by simp
qed

lemma startswith_slashes_append:
  assumes "no_cut x" and "cut_tail r"
  shows "startswith (x @ r) (py ''//'') = startswith x (py ''//'')"
proof (cases x)
  case Nil
  with assms show ?thesis by (cases r) (auto simp: startswith_def py_def cut_tail_def)
next
  case (Cons c cs)
  show ?thesis
  proof (cases cs)
    case Nil
    with Cons assms show ?thesis by (cases r) (auto simp: startswith_def py_def cut_tail_def)
  next
    case (Cons d ds)
    with \<open>x = c # cs\<close> show ?thesis by (simp add: startswith_def py_def)
  qed
qed

lemma splitnetloc_append:
  assumes "startswith x (py ''//'')" and "cut_tail r"
  shows "splitnetloc (x @ r) = (fst (splitnetloc x), snd (splitnetloc x) @ r)"
proof -
  from assms(1) have "2 \<le> length x" by (auto simp: startswith_def py_def prefix_def)
  then have d: "drop 2 (x @ r) = drop 2 x @ r" by simp
  have stop: "r \<noteq> [] \<Longrightarrow> \<not> \<not> is_netloc_delim (hd r)"
    using assms(2) by (auto simp: cut_tail_def is_netloc_delim_def)
  show ?thesis
    unfolding splitnetloc_def d
    using takeWhile_append_stop [of r "\<lambda>c. \<not> is_netloc_delim c" "drop 2 x"]
      dropWhile_append_stop [of r "\<lambda>c. \<not> is_netloc_delim c" "drop 2 x"] stop
    by simp
qed

lemma splitnetloc_subset: "set (snd (splitnetloc x)) \<subseteq> set x"
  unfolding splitnetloc_def by (auto dest!: set_dropWhileD in_set_dropD)

lemma path_part_append:
  assumes "no_cut y" and "cut_tail r"
  shows "hd (split_once (cp CHR ''?'') (hd (split_once (cp CHR ''#'') (y @ r)))) = y"
proof -
  note h = hd_split_once
  show ?thesis
  proof (cases "r = [] \<or> hd r = cp CHR ''#''")
    case True
    then have "takeWhile (\<lambda>x. x \<noteq> cp CHR ''#'') (y @ r) = takeWhile (\<lambda>x. x \<noteq> cp CHR ''#'') y"
      by (intro takeWhile_append_stop) auto
    with assms(1) show ?thesis by (simp add: h no_cut_def takeWhile_absent)
  next
    case False
    with assms(2) have r: "r \<noteq> []" "hd r = cp CHR ''?''" by (auto simp: cut_tail_def)
    have "takeWhile (\<lambda>x. x \<noteq> cp CHR ''#'') (y @ r) = y @ takeWhile (\<lambda>x. x \<noteq> cp CHR ''#'') r"
      using assms(1) by (intro takeWhile_append_absent) (simp add: no_cut_def)
    moreover have "takeWhile (\<lambda>x. x \<noteq> cp CHR ''?'') (y @ takeWhile (\<lambda>x. x \<noteq> cp CHR ''#'') r)
        = takeWhile (\<lambda>x. x \<noteq> cp CHR ''?'') y"
      using r by (intro takeWhile_append_stop) (cases r; simp)
    ultimately show ?thesis using assms(1) by (simp add: h no_cut_def takeWhile_absent)
  qed
qed


lemma cut_tail_Nil: "cut_tail []"
  by (simp add: cut_tail_def)

lemma urlparse_append:
  assumes b: "no_cut b" and r: "cut_tail r"
  shows "urlparse rt (b @ r) =
     (let sx = split_scheme (prepare b);
          ny = (if startswith (snd sx) (py ''//'') then splitnetloc (snd sx) else ([], snd sx))
      in if netloc_error rt (fst ny) then Inl ValueError
         else Inr \<lparr>scheme = fst sx, netloc = fst ny,
                   path = (if fst sx \<in> set uses_params \<and> cp CHR '';'' \<in> set (snd ny)
                           then splitparams (snd ny) else snd ny)\<rparr>)"
proof -
  define r' where "r' = filter (\<lambda>c. \<not> is_unsafe_byte c) r"
  define sch where "sch = fst (split_scheme (prepare b))"
  define x where "x = snd (split_scheme (prepare b))"
  define ny where "ny = (if startswith x (py ''//'') then splitnetloc x else ([], x))"
  have r': "cut_tail r'" unfolding r'_def using r by (rule cut_tail_filter)
  have pb: "no_cut (prepare b)" using set_prepare b by (rule no_cut_subset)
  have x: "no_cut x" unfolding x_def using split_scheme_subset pb by (rule no_cut_subset)
  have y: "no_cut (snd ny)"
    using x splitnetloc_subset [of x] unfolding ny_def by (auto intro: no_cut_subset)
  have p: "prepare (b @ r) = prepare b @ r'"
    unfolding r'_def using r by (rule prepare_append)
  have s: "split_scheme (prepare b @ r') = (sch, x @ r')"
    unfolding sch_def x_def using pb r' by (rule split_scheme_append)
  have n: "(if startswith (x @ r') (py ''//'') then splitnetloc (x @ r') else ([], x @ r'))
      = (fst ny, snd ny @ r')"
    unfolding ny_def using splitnetloc_append [of x r'] startswith_slashes_append [OF x r'] r'
    by simp
  have pp: "hd (split_once (cp CHR ''?'') (hd (split_once (cp CHR ''#'') (snd ny @ r')))) = snd ny"
    using y r' by (rule path_part_append)
  have "urlparse rt (b @ r) =
      (if netloc_error rt (fst ny) then Inl ValueError
       else Inr \<lparr>scheme = sch, netloc = fst ny,
                 path = (if sch \<in> set uses_params \<and> cp CHR '';'' \<in> set (snd ny)
                         then splitparams (snd ny) else snd ny)\<rparr>)"
    unfolding urlparse_def prepare_def [symmetric] p s
    by (simp only: Let_def prod.case s n pp)
  then show ?thesis
    unfolding Let_def sch_def [symmetric] x_def [symmetric] ny_def [symmetric] .
qed

lemma urlparse_base:
  assumes "no_cut b" and "cut_tail r"
  shows "urlparse rt (b @ r) = urlparse rt b"
  using urlparse_append [OF assms, of rt] urlparse_append [OF assms(1) cut_tail_Nil, of rt]
  by simp

lemma essential_params_shorter:
  "sum_list (map length (essential_params ps)) \<le> sum_list (map length ps)
   \<and> length (essential_params ps) \<le> length ps"
  by (induction ps) auto

lemma length_join: "length (join [c] xs) = sum_list (map length xs) + (length xs - 1)"
  by (induction "[c]" xs rule: join.induct) auto

lemma join_split_on: "join [c] (split_on c s) = s"
proof (induction s rule: length_induct)
  case (1 s)
  show ?case
  proof (cases "c \<in> set s")
    case False
    then show ?thesis by (simp add: split_on_no_sep)
  next
    case True
    then obtain a b where s: "s = a @ c # b" and a: "c \<notin> set a"
      by (meson split_list_first)
    have "length b < length s" using s by simp
    then have ih: "join [c] (split_on c b) = b" using "1.IH" by blast
    obtain p ps where ps: "split_on c b = p # ps"
      using split_on_neq_Nil [of c b] by (cases "split_on c b") auto
    from a have "split_on c s = a # split_on c b" unfolding s by (rule split_on_sep)
    then show ?thesis using ih ps s by simp
  qed
qed

lemma clean_url_shape:
  "\<exists>b r t. h = b @ r \<and> clean_url h = b @ t \<and> no_cut b \<and> cut_tail r \<and> cut_tail t
     \<and> length t \<le> length r"
proof -
  define clean where "clean = takeWhile (\<lambda>c. c \<noteq> cp CHR ''#'') h"
  define d1 where "d1 = dropWhile (\<lambda>c. c \<noteq> cp CHR ''#'') h"
  define b where "b = takeWhile (\<lambda>c. c \<noteq> cp CHR ''?'') clean"
  define d2 where "d2 = dropWhile (\<lambda>c. c \<noteq> cp CHR ''?'') clean"
  define kept where "kept = essential_params (if cp CHR ''?'' \<in> set clean
      then split_on (cp CHR ''&'') (tl d2) else [])"
  define t where "t = (if kept = [] then [] else py ''?'' @ join (py ''&'') kept)"
  have "clean = b @ d2" "h = clean @ d1"
    unfolding b_def d2_def d1_def clean_def by (simp_all only: takeWhile_dropWhile_id)
  then have h: "h = b @ (d2 @ d1)" by simp
  have cu: "clean_url h = b @ t"
    unfolding clean_url_unfold [of h] Let_def t_def kept_def b_def d2_def clean_def by simp
  have nohash: "cp CHR ''#'' \<notin> set clean"
    unfolding clean_def by (rule takeWhile_has_no_sep)
  have "cp CHR ''?'' \<notin> set b"
    unfolding b_def by (rule takeWhile_has_no_sep)
  moreover have "cp CHR ''#'' \<notin> set b"
    using nohash unfolding b_def by (auto dest: set_takeWhileD)
  ultimately have nb: "no_cut b" by (simp add: no_cut_def)
  have hd1: "d1 \<noteq> [] \<Longrightarrow> hd d1 = cp CHR ''#''"
    unfolding d1_def using hd_dropWhile [of "\<lambda>c. c \<noteq> cp CHR ''#''" h] by simp
  have hd2: "d2 \<noteq> [] \<Longrightarrow> hd d2 = cp CHR ''?''"
    unfolding d2_def using hd_dropWhile [of "\<lambda>c. c \<noteq> cp CHR ''?''" clean] by simp
  have cr: "cut_tail (d2 @ d1)"
    using hd1 hd2 by (cases d2) (auto simp: cut_tail_def)
  have ct: "cut_tail t"
    by (simp add: t_def cut_tail_def py_def)
  have len: "length t \<le> length (d2 @ d1)"
  proof (cases "kept = []")
    case True
    then show ?thesis by (simp add: t_def)
  next
    case False
    then have q: "cp CHR ''?'' \<in> set clean"
      unfolding kept_def by (auto split: if_splits)
    then have d2ne: "d2 \<noteq> []"
      unfolding d2_def by (simp add: dropWhile_eq_Nil_conv)
    let ?ps = "split_on (cp CHR ''&'') (tl d2)"
    have k: "kept = essential_params ?ps" using q by (simp add: kept_def)
    have "length (join [cp CHR ''&''] kept) \<le> length (join [cp CHR ''&''] ?ps)"
      unfolding length_join k using essential_params_shorter [of ?ps] by linarith
    also have "\<dots> = length (tl d2)" by (simp only: join_split_on)
    finally have j: "length (join [cp CHR ''&''] kept) \<le> length (tl d2)" .
    have "py ''?'' @ join (py ''&'') kept = cp CHR ''?'' # join [cp CHR ''&''] kept"
      by (simp add: py_def)
    then have lt: "length t = Suc (length (join [cp CHR ''&''] kept))"
      using False by (simp only: t_def if_False length_Cons)
    have "Suc (length (tl d2)) = length d2" using d2ne by (cases d2) simp_all
    with j lt have "length t \<le> length d2" by linarith
    then show ?thesis by simp
  qed
  from h cu nb cr ct len show ?thesis by blast
qed

lemma startswith_https: "startswith h (py ''https'') \<Longrightarrow> startswith h (py ''http'')"
  by (auto simp: startswith_def py_def prefix_def)

lemma collect_links_mem:
  assumes "l \<in> set (collect_links elements)"
  shows "\<exists>a. a \<in> set elements \<and> a_href a = Some (link_url l)
       \<and> startswith (link_url l) (py ''http'') \<and> link_is_displayed l = a_displayed a"
proof -
  from assms obtain a where a: "a \<in> set elements"
    and l: "l \<in> set (case a_href a of
          None \<Rightarrow> []
        | Some href \<Rightarrow>
            if href \<noteq> [] \<and> (startswith href (py ''http'') \<or> startswith href (py ''https''))
            then [\<lparr>link_url = href, link_text = strip (a_text a),
                   link_is_displayed = a_displayed a\<rparr>]
            else [])"
    unfolding collect_links_def by auto
  from l obtain href where "a_href a = Some href"
    and "startswith href (py ''http'') \<or> startswith href (py ''https'')"
    and "l = \<lparr>link_url = href, link_text = strip (a_text a), link_is_displayed = a_displayed a\<rparr>"
    by (cases "a_href a") (auto split: if_splits)
  with a show ?thesis using startswith_https by auto
qed

lemma navigable_urls_mem:
  "navigable_urls rt ls = Inr urls \<Longrightarrow> u \<in> set urls \<Longrightarrow>
   \<exists>l. l \<in> set ls \<and> link_is_displayed l \<and> is_link_valid rt (link_url l) = Inr True
       \<and> u = clean_url (link_url l)"
proof (induction ls arbitrary: urls)
  case Nil
  then show ?case by simp
next
  case (Cons l ls)
  show ?case
  proof (cases "link_is_displayed l")
    case False
    with Cons.prems Cons.IH [of urls] show ?thesis by auto
  next
    case True
    with Cons.prems(1) obtain valid rest where v: "is_link_valid rt (link_url l) = Inr valid"
      and rest: "navigable_urls rt ls = Inr rest"
      and urls: "urls = (if valid then clean_url (link_url l) # rest else rest)"
      by (auto simp: and_then_def split: sum.splits)
    show ?thesis
    proof (cases "u \<in> set rest")
      case True
      with Cons.IH [OF rest] show ?thesis by auto
    next
      case False
      with urls Cons.prems(2) have "valid" "u = clean_url (link_url l)"
        by (auto split: if_splits)
      with v True show ?thesis by auto
    qed
  qed
qed


lemma is_link_valid_iff: "is_link_valid rt h = Inr True \<longleftrightarrow> navigable_link rt h"
  by (auto simp: is_link_valid_def navigable_link_def and_then_def split: sum.splits)

text \<open>
  What holds of every URL that \<open>get_navigable\<close> returns: it is \<open>clean_url h\<close> for the
  \<open>href\<close> \<open>h\<close> of a displayed anchor, where \<open>h\<close> starts with \<open>http\<close> and passes
  \<open>is_link_valid\<close>; it has at most 64 characters and the scheme, host and path of
  \<open>h\<close>.
\<close>

lemma get_navigable_links:
  assumes "get_navigable rt found = Inr urls" and "u \<in> set urls"
  shows "\<exists>elements a h p. found = Inr elements \<and> a \<in> set elements \<and> a_href a = Some h
      \<and> a_displayed a \<and> startswith h (py ''http'') \<and> navigable_link rt h
      \<and> u = clean_url h \<and> length u \<le> 64
      \<and> urlparse rt h = Inr p \<and> urlparse rt u = Inr p
      \<and> scheme p \<noteq> [] \<and> netloc p \<noteq> [] \<and> \<not> search_numeric_tail rt (path p)"
proof -
  from assms obtain elements where found: "found = Inr elements"
    and nav: "navigable_urls rt (collect_links elements) = Inr urls"
    by (cases found; cases "navigable_urls rt (collect_links (projr found))")
      (auto simp: get_navigable_def and_then_def split: if_splits)
  from navigable_urls_mem [OF nav assms(2)] obtain l where l: "l \<in> set (collect_links elements)"
    and disp: "link_is_displayed l" and valid: "is_link_valid rt (link_url l) = Inr True"
    and u: "u = clean_url (link_url l)"
    by blast
  define h where "h = link_url l"
  from collect_links_mem [OF l] obtain a where a: "a \<in> set elements" "a_href a = Some h"
    "startswith h (py ''http'')" "a_displayed a"
    using disp unfolding h_def by auto
  have nl: "navigable_link rt h"
    using valid unfolding h_def by (simp add: is_link_valid_iff)
  then obtain p where p: "urlparse rt h = Inr p" "scheme p \<noteq> []" "netloc p \<noteq> []"
    "\<not> search_numeric_tail rt (path p)" and lh: "length h \<le> 64"
    by (auto simp: navigable_link_def split: sum.splits)
  from clean_url_shape [of h] obtain b r t where s: "h = b @ r" "clean_url h = b @ t"
    "no_cut b" "cut_tail r" "cut_tail t" "length t \<le> length r"
    by blast
  have "urlparse rt (clean_url h) = urlparse rt h"
    unfolding s(2) using urlparse_base [OF s(3,4), of rt] urlparse_base [OF s(3,5), of rt]
    unfolding s(1) [symmetric] by simp
  then have pu: "urlparse rt u = Inr p" using p(1) u h_def by simp
  have "length (clean_url h) \<le> length h"
    using s(6) by (subst (2) s(1), subst s(2)) simp
  then have lu: "length u \<le> 64" using lh u h_def by simp
  from found a nl u pu p lu show ?thesis unfolding h_def [symmetric] by blast
qed

lemma get_navigable_links_example:
  "get_navigable ascii_runtime (Inr [search_anchor]) = Inr [py ''https://a.b/find?q=x'']
   \<and> length (py ''https://a.b/find?q=x'') \<le> 64
   \<and> (\<exists>p. urlparse ascii_runtime (py ''https://a.b/find?q=x'') = Inr p
          \<and> scheme p \<noteq> [] \<and> netloc p \<noteq> []
          \<and> \<not> search_numeric_tail ascii_runtime (path p))"
proof -
  have g: "get_navigable ascii_runtime (Inr [search_anchor]) = Inr [py ''https://a.b/find?q=x'']"
    by code_simp
  have m: "py ''https://a.b/find?q=x'' \<in> set [py ''https://a.b/find?q=x'']" by simp
  from get_navigable_links [OF g m] g show ?thesis by blast
qed

text \<open>
  Claim C1. Every URL that \<open>get_navigable\<close> returns should satisfy the invariant of
  a navigable link: a scheme and a host, at most 64 characters, no blocked extension
  at its end and no path that ends in a numeric segment. The code breaks this on the
  extension. \<open>is_link_valid\<close> tests the numeric segment on the parsed path, and the
  extension on the whole URL, query and fragment included: the \<open>href\<close>
  \<open>http://a.b/logo.png?v=2\<close> passes, while \<open>http://a.b/12?v=2\<close> does not. The URL
  returned for the first, with its query cut, ends with \<open>.png\<close>, and \<open>is_link_valid\<close>
  itself rejects it.
\<close>

theorem get_navigable_returns_image_link:
  "is_link_valid ascii_runtime (py ''http://a.b/logo.png?v=2'') = Inr True
   \<and> get_navigable ascii_runtime (Inr [logo_anchor]) = Inr [py ''http://a.b/logo.png'']
   \<and> endswith (lower ascii_runtime (py ''http://a.b/logo.png'')) (py ''.png'')
   \<and> is_link_valid ascii_runtime (py ''http://a.b/logo.png'') = Inr False
   \<and> \<not> navigable_link ascii_runtime (py ''http://a.b/logo.png'')
   \<and> is_link_valid ascii_runtime (py ''http://a.b/12?v=2'') = Inr False"
  by code_simp


end
